theory Spec2Isabelle
  imports Main
begin

section \<open>Python values of \<open>grep_search\<close>\<close>

text \<open>
  The tool \<open>grep_search\<close> of
  \<open>aden_tools/tools/file_system_toolkits/grep_search/grep_search.py\<close> compiles a
  regular expression, resolves a path inside the session directory, scans one file, one
  directory or a directory tree line by line and returns a dictionary. A Python \<open>str\<close>
  is modelled by its UTF-8 encoding, a \<open>char list\<close> of bytes.
\<close>

text \<open>
  The exception classes the source distinguishes. \<open>FileNotFoundError\<close> and
  \<open>PermissionError\<close> are subclasses of \<open>OSError\<close>; \<open>OSError\<close> here stands for
  every other \<open>OSError\<close>; \<open>OtherException\<close> for every exception outside these
  classes. An exception carries \<open>str(e)\<close>.
\<close>

datatype exn_kind = FileNotFoundError | PermissionError | OSError | UnicodeDecodeError | OtherException

datatype exn = Exn (kind: exn_kind) (str: string)

definition is_OSError :: "exn \<Rightarrow> bool" where
  "is_OSError e = (kind e = FileNotFoundError \<or> kind e = PermissionError \<or> kind e = OSError)"

text \<open>The clause \<open>except (UnicodeDecodeError, PermissionError, OSError)\<close> of \<open>process_file\<close>.\<close>

definition caught_per_file :: "exn \<Rightarrow> bool" where
  "caught_per_file e = (kind e = UnicodeDecodeError \<or> kind e = PermissionError \<or> is_OSError e)"

text \<open>A match record: the dictionary \<open>{"file", "line_number", "line_content"}\<close>.\<close>

record match_record =
  file' :: string
  line_number :: int
  line_content :: string

text \<open>The returned dictionary, as its items in insertion order.\<close>

datatype pyval = PyBool bool | PyStr string | PyInt int | PyList "match_record list"

type_synonym pydict = "(string \<times> pyval) list"

text \<open>How a call of \<open>grep_search\<close> ends: it returns a dictionary, or an exception escapes.\<close>

datatype outcome = Returns pydict | Escapes exn

section \<open>The filesystem and the library calls\<close>

text \<open>
  What is found at a path. A regular file yields its lines in order (each with its line
  terminator) and then, possibly, raises: \<open>File ls (Some e)\<close> is a file whose \<open>open\<close> or
  whose read raises \<open>e\<close> after the lines \<open>ls\<close> have been yielded. The text layer decodes
  the file chunk by chunk, so \<open>ls\<close> holds lines of the chunks before the one that fails
  only: \<open>ls = []\<close> when \<open>open\<close> itself fails, and when the failure is in the first
  chunk. A directory lists its entries in the order \<open>os.scandir\<close> and
  \<open>os.listdir\<close> give them; \<open>Unreadable e\<close> is a directory whose listing raises \<open>e\<close>.
\<close>

datatype node = File "string list" "exn option" | Dir "(string \<times> node) list" | Unreadable exn

text \<open>The calls the request makes on the outside world, in order.\<close>

datatype event = Resolve | IsFile string | Scandir string | Listdir string | Open string

text \<open>
  What \<open>re.compile(pattern)\<close> does: it returns a compiled pattern (here the test
  \<open>regex.search(line)\<close>), it raises \<open>re.error\<close> (here its \<open>msg\<close>), or it raises another
  exception (\<open>OverflowError\<close> on a repetition count that is too large, \<open>RecursionError\<close>).
\<close>

datatype compile_result = Compiled "string \<Rightarrow> bool" | ReError string | CompileRaises exn

text \<open>
  Everything \<open>grep_search\<close> takes from outside its own file: the regex engine
  (\<open>re.compile\<close>), the resolver \<open>get_secure_path\<close> and the constant
  \<open>WORKSPACES_DIR\<close> of the module \<open>security\<close>, the filesystem, and the functions
  of \<open>os.path\<close>, which depend on the platform (\<open>relpath\<close> is \<open>None\<close> where it raises
  \<open>ValueError\<close>).
\<close>

record world =
  re_compile :: "string \<Rightarrow> compile_result"
  get_secure_path :: "string \<Rightarrow> string \<Rightarrow> string \<Rightarrow> string \<Rightarrow> exn + string"
  WORKSPACES_DIR :: string
  fs :: "string \<Rightarrow> node option"
  path_join :: "string \<Rightarrow> string \<Rightarrow> string"
  path_splitext :: "string \<Rightarrow> string \<times> string"
  path_relpath :: "string \<Rightarrow> string \<Rightarrow> string option"

subsection \<open>\<open>str.lower\<close> and \<open>str.strip\<close>\<close>

text \<open>
  \<open>str.lower\<close> on the ASCII letters. It is used for the membership of an extension in
  \<open>BINARY_EXTENSIONS\<close> only: of the other characters \<open>str.lower\<close> sends just U+212A into
  ASCII, to \<open>k\<close>, a letter no extension of that set has.
\<close>

definition lower_char :: "char \<Rightarrow> char" where
  "lower_char c = (let n = (of_char c :: nat) in if 65 \<le> n \<and> n \<le> 90 then char_of (n + 32) else c)"

definition lower :: "string \<Rightarrow> string" where
  "lower s = map lower_char s"

text \<open>
  The characters for which \<open>str.isspace\<close> holds, each in its UTF-8 encoding: the ASCII
  ones (9 to 13, 28 to 32), U+0085, U+00A0, U+1680, U+2000 to U+200A, U+2028, U+2029,
  U+202F, U+205F and U+3000.
\<close>

definition whitespace :: "string list" where
  "whitespace =
     map (\<lambda>n. [char_of (n :: nat)]) [9, 10, 11, 12, 13, 28, 29, 30, 31, 32]
     @ [[CHR 0xC2, CHR 0x85], [CHR 0xC2, CHR 0xA0], [CHR 0xE1, CHR 0x9A, CHR 0x80]]
     @ map (\<lambda>n. [CHR 0xE2, CHR 0x80, char_of (n :: nat)])
         [0x80, 0x81, 0x82, 0x83, 0x84, 0x85, 0x86, 0x87, 0x88, 0x89, 0x8A, 0xA8, 0xA9, 0xAF]
     @ [[CHR 0xE2, CHR 0x81, CHR 0x9F], [CHR 0xE3, CHR 0x80, CHR 0x80]]"

text \<open>
  The number of bytes of the code among \<open>codes\<close> that \<open>s\<close> starts with, 0 when it starts with
  none; \<open>lstrip_codes\<close> removes such codes from the front while there is one.
\<close>

definition code_prefix :: "string list \<Rightarrow> string \<Rightarrow> nat" where
  "code_prefix codes s =
     (case filter (\<lambda>code. take (length code) s = code) codes of
        [] \<Rightarrow> 0
      | code # others \<Rightarrow> length code)"

lemma code_prefix_Nil: "code_prefix codes [] = 0"
  by (auto simp: code_prefix_def filter_empty_conv split: list.splits)
    (metis (mono_tags, lifting) filter_eq_ConsD)

function lstrip_codes :: "string list \<Rightarrow> string \<Rightarrow> string" where
  "lstrip_codes codes s =
     (if code_prefix codes s = 0 then s else lstrip_codes codes (drop (code_prefix codes s) s))"
  by pat_completeness auto
termination
proof (relation "measure (\<lambda>(codes, s). length s)")
  fix codes :: "string list" and s :: string
  assume "code_prefix codes s \<noteq> 0"
  then have "s \<noteq> []" using code_prefix_Nil by metis
  then show "((codes, drop (code_prefix codes s) s), (codes, s)) \<in> measure (\<lambda>(codes, s). length s)"
    using \<open>code_prefix codes s \<noteq> 0\<close> by simp
qed simp

text \<open>
  \<open>str.strip()\<close>: the whitespace characters are removed from the front, then from the
  back (a string that is valid UTF-8 ends with the encoding of a character exactly when
  its last character is that one).
\<close>

definition strip :: "string \<Rightarrow> string" where
  "strip s = rev (lstrip_codes (map rev whitespace) (rev (lstrip_codes whitespace s)))"

section \<open>The constants of \<open>grep_search\<close>\<close>

definition IGNORED_DIRS :: "string set" where
  "IGNORED_DIRS = {''node_modules'', ''.git'', ''__pycache__'', ''.venv'', ''venv'',
     ''dist'', ''build'', ''.pytest_cache'', ''.mypy_cache''}"

definition BINARY_EXTENSIONS :: "string set" where
  "BINARY_EXTENSIONS = {''.pyc'', ''.pyo'', ''.pyd'', ''.class'', ''.o'', ''.so'', ''.dll'', ''.exe'',
     ''.dylib'', ''.db'', ''.sqlite'', ''.sqlite3'',
     ''.zip'', ''.tar'', ''.gz'', ''.7z'', ''.rar'', ''.whl'',
     ''.png'', ''.jpg'', ''.jpeg'', ''.gif'', ''.webp'', ''.ico'', ''.svg'',
     ''.mp3'', ''.mp4'', ''.mov'', ''.avi'',
     ''.pdf'', ''.docx'', ''.xlsx'',
     ''.ttf'', ''.otf'', ''.woff'', ''.woff2''}"

definition MAX_MATCHES :: nat where
  "MAX_MATCHES = 1000"

section \<open>\<open>process_file\<close>\<close>

text \<open>
  The state of a request: the list \<open>matches\<close> the closure \<open>process_file\<close> appends to,
  and the calls made so far.
\<close>

record state =
  matches :: "match_record list"
  trace :: "event list"

text \<open>
  How a call of \<open>process_file\<close> (and of the loops around it) ends: it returns \<open>None\<close>,
  it returns \<open>"STOP"\<close> (a loop: it was left by \<open>break\<close>), or an exception leaves it.
\<close>

datatype signal = ReturnNone | STOP | Raise exn

definition log_event :: "event \<Rightarrow> state \<Rightarrow> state" where
  "log_event ev st = st\<lparr>trace := trace st @ [ev]\<rparr>"

text \<open>The binary check: \<open>_, ext = os.path.splitext(full_path)\<close>, \<open>ext.lower() in BINARY_EXTENSIONS\<close>.\<close>

definition is_binary :: "world \<Rightarrow> string \<Rightarrow> bool" where
  "is_binary w full_path = (lower (snd (path_splitext w full_path)) \<in> BINARY_EXTENSIONS)"

text \<open>\<open>os.path.relpath(full_path, session_root)\<close>, and \<open>full_path\<close> on \<open>ValueError\<close>.\<close>

definition display_path_of :: "world \<Rightarrow> string \<Rightarrow> string \<Rightarrow> string" where
  "display_path_of w session_root full_path =
     (case path_relpath w full_path session_root of Some r \<Rightarrow> r | None \<Rightarrow> full_path)"

text \<open>
  The loop \<open>for i, line in enumerate(f, 1)\<close> over the lines the file yields: the result is
  the list of matches and whether the loop returned \<open>"STOP"\<close>.
\<close>

fun scan_lines :: "(string \<Rightarrow> bool) \<Rightarrow> string \<Rightarrow> int \<Rightarrow> string list \<Rightarrow> match_record list
    \<Rightarrow> match_record list \<times> bool" where
  "scan_lines regex display_path i [] ms = (ms, False)"
| "scan_lines regex display_path i (line # rest) ms =
     (if MAX_MATCHES \<le> length ms then (ms, True)
      else scan_lines regex display_path (i + 1) rest
             (if regex line
              then ms @ [\<lparr>file' = display_path, line_number = i, line_content = strip line\<rparr>]
              else ms))"

definition process_file :: "world \<Rightarrow> (string \<Rightarrow> bool) \<Rightarrow> string \<Rightarrow> string \<Rightarrow> string list
    \<Rightarrow> exn option \<Rightarrow> state \<Rightarrow> state \<times> signal" where
  "process_file w regex session_root full_path ls failure st =
     (if is_binary w full_path then (st, ReturnNone)
      else
        let display_path = display_path_of w session_root full_path;
            st1 = log_event (Open full_path) st
        in case scan_lines regex display_path 1 ls (matches st1) of
             (ms, True) \<Rightarrow> (st1\<lparr>matches := ms\<rparr>, STOP)
           | (ms, False) \<Rightarrow>
               (case failure of
                  None \<Rightarrow> (st1\<lparr>matches := ms\<rparr>, ReturnNone)
                | Some e \<Rightarrow>
                    if caught_per_file e then (st1\<lparr>matches := ms\<rparr>, ReturnNone)
                    else (st1\<lparr>matches := ms\<rparr>, Raise e)))"

section \<open>The three search modes\<close>

text \<open>
  \<open>os.walk\<close> splits the entries of a directory into directories and the rest; a regular
  file is the only entry for which \<open>os.path.isfile\<close> holds.
\<close>

fun is_dir :: "node \<Rightarrow> bool" where
  "is_dir (File ls failure) = False"
| "is_dir (Dir entries) = True"
| "is_dir (Unreadable e) = True"

definition subdirs :: "(string \<times> node) list \<Rightarrow> (string \<times> node) list" where
  "subdirs entries = filter (\<lambda>(name, nd). is_dir nd) entries"

definition nondirs :: "(string \<times> node) list \<Rightarrow> (string \<times> node) list" where
  "nondirs entries = filter (\<lambda>(name, nd). \<not> is_dir nd) entries"

text \<open>
  The inner loop of the recursive mode, \<open>for filename in filenames\<close>: it is left by
  \<open>break\<close> when the cap is reached or \<open>process_file\<close> returns \<open>"STOP"\<close>. The list it
  runs over is \<open>nondirs entries\<close>, which holds regular files only; the last case is
  there for totality.
\<close>

fun scan_filenames :: "world \<Rightarrow> (string \<Rightarrow> bool) \<Rightarrow> string \<Rightarrow> string \<Rightarrow> (string \<times> node) list
    \<Rightarrow> state \<Rightarrow> state \<times> signal" where
  "scan_filenames w regex session_root root [] st = (st, ReturnNone)"
| "scan_filenames w regex session_root root ((filename, nd) # rest) st =
     (if MAX_MATCHES \<le> length (matches st) then (st, STOP)
      else
        (case nd of
           File ls failure \<Rightarrow>
             (case process_file w regex session_root (path_join w root filename) ls failure st of
                (st', ReturnNone) \<Rightarrow> scan_filenames w regex session_root root rest st'
              | (st', STOP) \<Rightarrow> (st', STOP)
              | (st', Raise e) \<Rightarrow> (st', Raise e))
         | _ \<Rightarrow> scan_filenames w regex session_root root rest st))"

text \<open>
  The size of a tree, for the termination of the walk: pruning leaves a list of entries
  that is no larger.
\<close>

fun node_size :: "node \<Rightarrow> nat" where
  "node_size (File ls failure) = 1"
| "node_size (Unreadable e) = 1"
| "node_size (Dir entries) = Suc (sum_list (map (\<lambda>(name, nd). node_size nd) entries))"

definition entries_size :: "(string \<times> node) list \<Rightarrow> nat" where
  "entries_size entries = sum_list (map (\<lambda>(name, nd). node_size nd) entries)"

lemma entries_size_Cons: "entries_size ((name, nd) # rest) = node_size nd + entries_size rest"
  by (simp add: entries_size_def)

lemma entries_size_filter: "entries_size (filter P entries) \<le> entries_size entries"
  by (induction entries) (auto simp: entries_size_def)

lemma node_size_pos: "0 < node_size nd"
  by (cases nd) simp_all

lemma pruned_dirs_size:
  "2 * entries_size (filter P (subdirs entries)) < Suc (2 * (\<Sum>(name, nd)\<leftarrow>entries. node_size nd))"
proof -
  have "entries_size (filter P (subdirs entries)) \<le> entries_size (subdirs entries)"
    by (rule entries_size_filter)
  also have "\<dots> \<le> entries_size entries"
    unfolding subdirs_def by (rule entries_size_filter)
  finally show ?thesis
    by (simp add: entries_size_def)
qed

text \<open>
  The loop \<open>for root, dirs, filenames in os.walk(secure_path)\<close> with its body. \<open>walk\<close> is
  the generator at one directory \<open>root\<close>: \<open>os.scandir\<close> lists it (an \<open>OSError\<close> there ends
  this directory silently, as \<open>onerror\<close> is \<open>None\<close>); the loop body runs on what is
  yielded (the cap check that breaks the whole loop, the pruning of \<open>dirs\<close> in place,
  the loop over \<open>filenames\<close>); then the generator descends into the directories left in
  \<open>dirs\<close>, in order (\<open>walk_dirs\<close>). \<open>STOP\<close> is the \<open>break\<close> of the outer loop. Listing a
  path that is a regular file raises \<open>NotADirectoryError\<close>, an \<open>OSError\<close>. Symbolic links
  are not modelled.
\<close>

function walk :: "world \<Rightarrow> (string \<Rightarrow> bool) \<Rightarrow> string \<Rightarrow> string \<Rightarrow> node \<Rightarrow> state \<Rightarrow> state \<times> signal"
  and walk_dirs :: "world \<Rightarrow> (string \<Rightarrow> bool) \<Rightarrow> string \<Rightarrow> string \<Rightarrow> (string \<times> node) list
    \<Rightarrow> state \<Rightarrow> state \<times> signal" where
  "walk w regex session_root root (File ls failure) st = (log_event (Scandir root) st, ReturnNone)"
| "walk w regex session_root root (Unreadable e) st =
     (if is_OSError e then (log_event (Scandir root) st, ReturnNone)
      else (log_event (Scandir root) st, Raise e))"
| "walk w regex session_root root (Dir entries) st =
     (let st1 = log_event (Scandir root) st in
      if MAX_MATCHES \<le> length (matches st1) then (st1, STOP)
      else
        let dirs = filter (\<lambda>(d, nd). d \<notin> IGNORED_DIRS) (subdirs entries) in
        (case scan_filenames w regex session_root root (nondirs entries) st1 of
           (st2, Raise e) \<Rightarrow> (st2, Raise e)
         | (st2, _) \<Rightarrow> walk_dirs w regex session_root root dirs st2))"
| "walk_dirs w regex session_root root [] st = (st, ReturnNone)"
| "walk_dirs w regex session_root root ((d, nd) # rest) st =
     (case walk w regex session_root (path_join w root d) nd st of
        (st', ReturnNone) \<Rightarrow> walk_dirs w regex session_root root rest st'
      | (st', STOP) \<Rightarrow> (st', STOP)
      | (st', Raise e) \<Rightarrow> (st', Raise e))"
  by pat_completeness auto
termination
proof (relation "measure (\<lambda>x. case x of
    Inl (w, regex, session_root, root, nd, st) \<Rightarrow> 2 * node_size nd
  | Inr (w, regex, session_root, root, entries, st) \<Rightarrow> 2 * entries_size entries + 1)")
qed (auto simp: entries_size_Cons node_size_pos pruned_dirs_size)

text \<open>
  The loop of the non-recursive mode, \<open>for item in os.listdir(secure_path)\<close>: only the
  entries for which \<open>os.path.isfile\<close> holds are processed.
\<close>

fun scan_listdir :: "world \<Rightarrow> (string \<Rightarrow> bool) \<Rightarrow> string \<Rightarrow> string \<Rightarrow> (string \<times> node) list
    \<Rightarrow> state \<Rightarrow> state \<times> signal" where
  "scan_listdir w regex session_root secure_path [] st = (st, ReturnNone)"
| "scan_listdir w regex session_root secure_path ((item, nd) # rest) st =
     (let full_path = path_join w secure_path item;
          st1 = log_event (IsFile full_path) st
      in case nd of
           File ls failure \<Rightarrow>
             (case process_file w regex session_root full_path ls failure st1 of
                (st', ReturnNone) \<Rightarrow> scan_listdir w regex session_root secure_path rest st'
              | (st', STOP) \<Rightarrow> (st', STOP)
              | (st', Raise e) \<Rightarrow> (st', Raise e))
         | _ \<Rightarrow> scan_listdir w regex session_root secure_path rest st1)"

section \<open>\<open>grep_search\<close>\<close>

text \<open>
  What the calls on \<open>secure_path\<close> find: a path with nothing behind it behaves as a
  directory whose listing raises \<open>FileNotFoundError\<close>.
\<close>

definition node_at :: "world \<Rightarrow> string \<Rightarrow> node" where
  "node_at w p =
     (case fs w p of
        Some nd \<Rightarrow> nd
      | None \<Rightarrow> Unreadable (Exn FileNotFoundError (''[Errno 2] No such file or directory: '' @ p)))"

text \<open>The search logic: \<open>if os.path.isfile(secure_path) ... elif recursive ... else ...\<close>.\<close>

definition search :: "world \<Rightarrow> (string \<Rightarrow> bool) \<Rightarrow> string \<Rightarrow> string \<Rightarrow> bool \<Rightarrow> state
    \<Rightarrow> state \<times> signal" where
  "search w regex session_root secure_path recursive st =
     (case node_at w secure_path of
        File ls failure \<Rightarrow> process_file w regex session_root secure_path ls failure st
      | Dir entries \<Rightarrow>
          if recursive then walk w regex session_root secure_path (Dir entries) st
          else scan_listdir w regex session_root secure_path entries
                 (log_event (Listdir secure_path) st)
      | Unreadable e \<Rightarrow>
          if recursive then walk w regex session_root secure_path (Unreadable e) st
          else (log_event (Listdir secure_path) st, Raise e))"

text \<open>The handlers around the search: the three \<open>except\<close> clauses, in order.\<close>

definition error_envelope :: "string \<Rightarrow> exn \<Rightarrow> pydict" where
  "error_envelope path e =
     (case kind e of
        FileNotFoundError \<Rightarrow> [(''error'', PyStr (''Directory or file not found: '' @ path))]
      | PermissionError \<Rightarrow> [(''error'', PyStr (''Permission denied accessing: '' @ path))]
      | _ \<Rightarrow> [(''error'', PyStr (''Failed to perform grep search: '' @ str e))])"

definition success_envelope :: "string \<Rightarrow> string \<Rightarrow> bool \<Rightarrow> match_record list \<Rightarrow> pydict" where
  "success_envelope pattern path recursive ms =
     (let result = [(''success'', PyBool True), (''pattern'', PyStr pattern), (''path'', PyStr path),
                    (''recursive'', PyBool recursive), (''matches'', PyList ms),
                    (''total_matches'', PyInt (int (length ms)))]
      in if MAX_MATCHES \<le> length ms
         then result @ [(''warning'', PyStr ''Stopped early after reaching MAX_MATCHES=1000'')]
         else result)"

text \<open>\<open>session_root = os.path.join(WORKSPACES_DIR, workspace_id, agent_id, session_id)\<close>.\<close>

definition session_root_of :: "world \<Rightarrow> string \<Rightarrow> string \<Rightarrow> string \<Rightarrow> string" where
  "session_root_of w workspace_id agent_id session_id =
     path_join w (path_join w (path_join w (WORKSPACES_DIR w) workspace_id) agent_id) session_id"

text \<open>
  The request: how it ends, and the calls it made on the outside world. The pattern is
  compiled first, in a \<open>try\<close> of its own that catches \<open>re.error\<close> only: any other
  exception of \<open>re.compile\<close> escapes \<open>grep_search\<close>. Everything after that runs under the
  three handlers, the last of which catches every \<open>Exception\<close>. The search starts on an
  empty list of matches, after the resolver and \<open>os.path.isfile\<close> have been called.
\<close>

definition initial_state :: "string \<Rightarrow> state" where
  "initial_state secure_path = \<lparr>matches = [], trace = [Resolve, IsFile secure_path]\<rparr>"

definition grep_search :: "world \<Rightarrow> string \<Rightarrow> string \<Rightarrow> string \<Rightarrow> string \<Rightarrow> string \<Rightarrow> bool
    \<Rightarrow> outcome \<times> event list" where
  "grep_search w path pattern workspace_id agent_id session_id recursive =
     (case re_compile w pattern of
        ReError msg \<Rightarrow> (Returns [(''error'', PyStr (''Invalid regex pattern: '' @ msg))], [])
      | CompileRaises e \<Rightarrow> (Escapes e, [])
      | Compiled regex \<Rightarrow>
          (case get_secure_path w path workspace_id agent_id session_id of
             Inl e \<Rightarrow> (Returns (error_envelope path e), [Resolve])
           | Inr secure_path \<Rightarrow>
               let session_root = session_root_of w workspace_id agent_id session_id;
                   st0 = initial_state secure_path
               in (case search w regex session_root secure_path recursive st0 of
                     (st, Raise e) \<Rightarrow> (Returns (error_envelope path e), trace st)
                   | (st, _) \<Rightarrow>
                       (Returns (success_envelope pattern path recursive (matches st)),
                        trace st))))"

text \<open>
  Reading the returned dictionary: \<open>result.get(k)\<close> and \<open>list(result)\<close>. Where an exception
  escaped there is no dictionary to read.
\<close>

definition lookup_key :: "outcome \<Rightarrow> string \<Rightarrow> pyval option" where
  "lookup_key out k = (case out of Returns d \<Rightarrow> map_of d k | Escapes e \<Rightarrow> None)"

definition keys :: "outcome \<Rightarrow> string list option" where
  "keys out = (case out of Returns d \<Rightarrow> Some (map fst d) | Escapes e \<Rightarrow> None)"

section \<open>Notions for stating the properties\<close>


text \<open>
  The regular files of a tree: \<open>file_below w p nd q ls\<close> says that the tree \<open>nd\<close> found at
  the path \<open>p\<close> holds a regular file yielding the lines \<open>ls\<close>, and that \<open>q\<close> is the full
  path of that file as \<open>os.path.join\<close> builds it on the way down from \<open>p\<close>.
\<close>

inductive file_below :: "world \<Rightarrow> string \<Rightarrow> node \<Rightarrow> string \<Rightarrow> string list \<Rightarrow> bool" for w where
  here: "file_below w p (File ls failure) p ls"
| child: "(name, nd) \<in> set entries \<Longrightarrow> file_below w (path_join w p name) nd q ls
    \<Longrightarrow> file_below w p (Dir entries) q ls"

text \<open>
  The record \<open>process_file\<close> appends for the line at position \<open>k\<close> (from 0) of a file.
\<close>

definition record_of :: "world \<Rightarrow> string \<Rightarrow> string \<Rightarrow> string list \<Rightarrow> nat \<Rightarrow> match_record" where
  "record_of w session_root full_path ls k =
     \<lparr>file' = display_path_of w session_root full_path, line_number = int k + 1,
      line_content = strip (ls ! k)\<rparr>"

text \<open>
  Every match of a search comes from a line of a regular file of the tree at
  \<open>secure_path\<close>, a file whose extension is not binary.
\<close>

definition from_tree :: "world \<Rightarrow> (string \<Rightarrow> bool) \<Rightarrow> string \<Rightarrow> string \<Rightarrow> match_record \<Rightarrow> bool" where
  "from_tree w regex sr secure_path m =
     (\<exists>q ls k. file_below w secure_path (node_at w secure_path) q ls \<and> \<not> is_binary w q
        \<and> k < length ls \<and> regex (ls ! k) \<and> m = record_of w sr q ls k)"

text \<open>
  A read that ends inside \<open>process_file\<close>: the file ends, or it raises one of the
  exceptions caught there.
\<close>

definition quiet :: "exn option \<Rightarrow> bool" where
  "quiet failure = (case failure of None \<Rightarrow> True | Some e \<Rightarrow> caught_per_file e)"

text \<open>
  Two trees at the path \<open>p\<close> between which the search cannot tell: a file with a binary
  extension may hold anything; another file has the same lines, and the same failure or
  one that is caught; a directory has the same names of the same kind, in the same order;
  what lies under a subdirectory with an ignored name is free.
\<close>

fun same_view :: "world \<Rightarrow> string \<Rightarrow> node \<Rightarrow> node \<Rightarrow> bool"
  and same_entries :: "world \<Rightarrow> string \<Rightarrow> (string \<times> node) list \<Rightarrow> (string \<times> node) list \<Rightarrow> bool" where
  "same_view w p (File ls failure) (File ls' failure') =
     (is_binary w p \<or> (ls = ls' \<and> (failure = failure' \<or> (quiet failure \<and> quiet failure'))))"
| "same_view w p (Dir entries) (Dir entries') = same_entries w p entries entries'"
| "same_view w p (Unreadable e) (Unreadable e') = (e = e')"
| "same_view w p (File ls failure) (Dir entries') = False"
| "same_view w p (File ls failure) (Unreadable e') = False"
| "same_view w p (Dir entries) (File ls' failure') = False"
| "same_view w p (Dir entries) (Unreadable e') = False"
| "same_view w p (Unreadable e) (File ls' failure') = False"
| "same_view w p (Unreadable e) (Dir entries') = False"
| "same_entries w p [] [] = True"
| "same_entries w p ((name, nd) # rest) ((name', nd') # rest') =
     (name = name' \<and> is_dir nd = is_dir nd'
      \<and> ((is_dir nd \<and> name \<in> IGNORED_DIRS) \<or> same_view w (path_join w p name) nd nd')
      \<and> same_entries w p rest rest')"
| "same_entries w p [] (entry' # rest') = False"
| "same_entries w p (entry # rest) [] = False"

text \<open>The directories the walk descends into, compared entry by entry.\<close>

definition same_dirs :: "world \<Rightarrow> string \<Rightarrow> (string \<times> node) list \<Rightarrow> (string \<times> node) list \<Rightarrow> bool" where
  "same_dirs w root dirs dirs' =
     list_all2 (\<lambda>(d, nd) (d', nd'). d = d' \<and> same_view w (path_join w root d) nd nd') dirs dirs'"

text \<open>
  The tree with every subdirectory of an ignored name emptied, at every depth outside
  such a subdirectory. The root of the tree is kept whatever its name is.
\<close>

fun erase_ignored :: "node \<Rightarrow> node" where
  "erase_ignored (Dir entries) =
     Dir (map (\<lambda>(name, nd). (name, if is_dir nd \<and> name \<in> IGNORED_DIRS then Dir [] else erase_ignored nd))
            entries)"
| "erase_ignored (File ls failure) = File ls failure"
| "erase_ignored (Unreadable e) = Unreadable e"

definition without_ignored :: "world \<Rightarrow> world" where
  "without_ignored w = w\<lparr>fs := \<lambda>p. map_option erase_ignored (fs w p)\<rparr>"



text \<open>
  The tree in which every file with a binary extension is empty.
\<close>

fun blank_binary :: "world \<Rightarrow> string \<Rightarrow> node \<Rightarrow> node" where
  "blank_binary w p (File ls failure) = (if is_binary w p then File [] None else File ls failure)"
| "blank_binary w p (Dir entries) =
     Dir (map (\<lambda>(name, nd). (name, blank_binary w (path_join w p name) nd)) entries)"
| "blank_binary w p (Unreadable e) = Unreadable e"

definition binaries_blanked :: "world \<Rightarrow> world" where
  "binaries_blanked w = w\<lparr>fs := \<lambda>p. map_option (blank_binary w p) (fs w p)\<rparr>"







text \<open>
  The directory with every subdirectory emptied.
\<close>

fun empty_subdirs :: "node \<Rightarrow> node" where
  "empty_subdirs (Dir entries) =
     Dir (map (\<lambda>(name, nd). (name, if is_dir nd then Dir [] else nd)) entries)"
| "empty_subdirs (File ls failure) = File ls failure"
| "empty_subdirs (Unreadable e) = Unreadable e"

definition subdirs_emptied :: "world \<Rightarrow> world" where
  "subdirs_emptied w = w\<lparr>fs := \<lambda>p. map_option empty_subdirs (fs w p)\<rparr>"

section \<open>\<open>os.path\<close> on POSIX, and an example world\<close>

text \<open>
  \<open>posixpath.join\<close>, \<open>posixpath.splitext\<close> and \<open>posixpath.relpath\<close> (the last one on
  absolute, normalised paths, where \<open>abspath\<close> changes nothing), for running the model on
  concrete requests.
\<close>

definition posix_join :: "string \<Rightarrow> string \<Rightarrow> string" where
  "posix_join a b =
     (if take 1 b = ''/'' then b
      else if a = [] \<or> last a = CHR ''/'' then a @ b
      else a @ ''/'' @ b)"

definition rfind :: "char \<Rightarrow> string \<Rightarrow> int" where
  "rfind c s =
     (if c \<in> set s then int (length s) - 1 - int (length (takeWhile (\<lambda>x. x \<noteq> c) (rev s)))
      else - 1)"

definition posix_splitext :: "string \<Rightarrow> string \<times> string" where
  "posix_splitext p =
     (let sepIndex = rfind (CHR ''/'') p;
          dotIndex = rfind (CHR ''.'') p
      in if dotIndex > sepIndex \<and>
            list_ex (\<lambda>c. c \<noteq> CHR ''.'')
              (take (nat (dotIndex - (sepIndex + 1))) (drop (nat (sepIndex + 1)) p))
         then (take (nat dotIndex) p, drop (nat dotIndex) p)
         else (p, []))"

fun split_sep :: "string \<Rightarrow> string \<Rightarrow> string list" where
  "split_sep cur [] = (if cur = [] then [] else [cur])"
| "split_sep cur (c # cs) =
     (if c = CHR ''/'' then (if cur = [] then split_sep [] cs else cur # split_sep [] cs)
      else split_sep (cur @ [c]) cs)"

fun commonprefix :: "string list \<Rightarrow> string list \<Rightarrow> nat" where
  "commonprefix (x # xs) (y # ys) = (if x = y then Suc (commonprefix xs ys) else 0)"
| "commonprefix xs ys = 0"

fun join_all :: "string list \<Rightarrow> string" where
  "join_all [] = []"
| "join_all [x] = x"
| "join_all (x # y # ys) = x @ ''/'' @ join_all (y # ys)"

definition posix_relpath :: "string \<Rightarrow> string \<Rightarrow> string option" where
  "posix_relpath path start =
     (if path = [] then None
      else
        let start_list = split_sep [] start;
            path_list = split_sep [] path;
            i = commonprefix start_list path_list;
            rel_list = replicate (length start_list - i) ''..'' @ drop i path_list
        in Some (if rel_list = [] then ''.'' else join_all rel_list))"

text \<open>
  A stand-in for the regex engine on patterns without metacharacters: the pattern \<open>[\<close>
  raises \<open>re.error\<close>, the pattern \<open>a{4294967296}\<close> raises \<open>OverflowError\<close>, every other
  pattern is searched as a literal substring.
\<close>

fun contains :: "string \<Rightarrow> string \<Rightarrow> bool" where
  "contains pat [] = (pat = [])"
| "contains pat (c # cs) = (take (length pat) (c # cs) = pat \<or> contains pat cs)"

definition literal_compile :: "string \<Rightarrow> compile_result" where
  "literal_compile pattern =
     (if pattern = ''['' then ReError ''unterminated character set''
      else if pattern = ''a{4294967296}''
      then CompileRaises (Exn OtherException ''the repetition number is too large'')
      else Compiled (contains pattern))"

text \<open>A resolver that places the path under the session directory.\<close>

definition example_resolver :: "string \<Rightarrow> string \<Rightarrow> string \<Rightarrow> string \<Rightarrow> exn + string" where
  "example_resolver path workspace_id agent_id session_id =
     Inr (posix_join
            (posix_join (posix_join (posix_join ''/workspaces'' workspace_id) agent_id) session_id)
            path)"

text \<open>
  The session \<open>/workspaces/ws/ag/sess\<close>: a project directory with a source directory, a
  vendored directory, a text file, an image, an unreadable file and a build directory,
  a log file of a thousand matching lines, and a log file whose read fails with a decoding
  error after its first line.
\<close>

definition node_modules_dir :: node where
  "node_modules_dir = Dir [(''bar.txt'', File [''hello world\<newline>''] None)]"

definition build_dir :: node where
  "build_dir = Dir [(''out.txt'', File [''hello from the build\<newline>''] None)]"

definition icon_file :: node where
  "icon_file = File [''TODO: fix\<newline>''] None"

definition proj_dir :: node where
  "proj_dir = Dir
     [(''src'', Dir [(''foo.txt'', File [''hello world\<newline>''] None)]),
      (''node_modules'', node_modules_dir),
      (''notes.txt'', File [''first line\<newline>'', ''  TODO: fix  \<newline>''] None),
      (''icon.PNG'', icon_file),
      (''locked.txt'', File [] (Some (Exn PermissionError ''[Errno 13] Permission denied''))),
      (''build'', build_dir)]"

definition big_log :: node where
  "big_log = File (replicate 1000 ''error: crash happened\<newline>'') None"

definition example_fs :: "string \<Rightarrow> node option" where
  "example_fs p =
     (if p = ''/workspaces/ws/ag/sess/proj'' then Some proj_dir
      else if p = ''/workspaces/ws/ag/sess/proj/build'' then Some build_dir
      else if p = ''/workspaces/ws/ag/sess/proj/icon.PNG'' then Some icon_file
      else if p = ''/workspaces/ws/ag/sess/big.log'' then Some big_log
      else None)"

definition example_world :: world where
  "example_world = \<lparr>re_compile = literal_compile, get_secure_path = example_resolver,
     WORKSPACES_DIR = ''/workspaces'', fs = example_fs, path_join = posix_join,
     path_splitext = posix_splitext, path_relpath = posix_relpath\<rparr>"

section \<open>Induction over a tree\<close>

lemma tree_induct [case_names File Unreadable Dir Nil Cons]:
  fixes P :: "string \<Rightarrow> node \<Rightarrow> state \<Rightarrow> bool"
    and Q :: "string \<Rightarrow> (string \<times> node) list \<Rightarrow> state \<Rightarrow> bool"
  assumes file_case: "\<And>root ls failure st. P root (File ls failure) st"
    and unreadable_case: "\<And>root e st. P root (Unreadable e) st"
    and dir_case: "\<And>root entries st.
        (\<And>st'. Q root (filter (\<lambda>(d, nd). d \<notin> IGNORED_DIRS) (subdirs entries)) st')
        \<Longrightarrow> P root (Dir entries) st"
    and nil: "\<And>root st. Q root [] st"
    and cons: "\<And>root d nd rest st.
        (\<And>st'. P (join root d) nd st') \<Longrightarrow> (\<And>st'. Q root rest st')
        \<Longrightarrow> Q root ((d, nd) # rest) st"
  shows "P root nd st" and "Q root entries st"
proof -
  have p: "\<forall>root st. P root nd st" for nd
  proof (induction nd)
    case (File ls failure)
    show ?case by (simp add: file_case)
  next
    case (Unreadable e)
    show ?case by (simp add: unreadable_case)
  next
    case (Dir entries)
    have q: "set es \<subseteq> set entries \<Longrightarrow> Q root es st" for es root st
    proof (induction es arbitrary: st)
      case Nil
      show ?case by (rule nil)
    next
      case (Cons entry es)
      obtain d nd where entry: "entry = (d, nd)" by (cases entry)
      have "(d, nd) \<in> set entries" using Cons.prems entry by simp
      then have "\<forall>root st. P root nd st" using Dir.IH by fastforce
      moreover have "\<And>st'. Q root es st'" using Cons by simp
      ultimately show ?case unfolding entry by (intro cons) simp_all
    qed
    have "set (filter (\<lambda>(d, nd). d \<notin> IGNORED_DIRS) (subdirs entries)) \<subseteq> set entries"
      by (auto simp: subdirs_def)
    then show ?case using q dir_case by blast
  qed
  show "P root nd st" using p by simp
  show "Q root entries st"
  proof (induction entries arbitrary: st)
    case Nil
    show ?case by (rule nil)
  next
    case (Cons entry es)
    obtain d nd where entry: "entry = (d, nd)" by (cases entry)
    show ?case unfolding entry using p Cons by (intro cons) simp_all
  qed
qed

lemma node_path_induct [case_names File Unreadable Dir]:
  fixes P :: "string \<Rightarrow> node \<Rightarrow> bool"
  assumes "\<And>p ls failure. P p (File ls failure)"
    and "\<And>p e. P p (Unreadable e)"
    and "\<And>p entries. (\<And>name nd. (name, nd) \<in> set entries \<Longrightarrow> P (join p name) nd)
        \<Longrightarrow> P p (Dir entries)"
  shows "P p nd"
proof (induction nd arbitrary: p)
  case (Dir entries)
  have "P (join p name) nd" if "(name, nd) \<in> set entries" for name nd
    using Dir.IH that by fastforce
  then show ?case by (rule assms(3))
qed (simp_all add: assms)

section \<open>Runs of the example world\<close>

lemma example_proj:
  "re_compile example_world ''hello'' = Compiled (contains ''hello'')"
  "re_compile example_world ''TODO'' = Compiled (contains ''TODO'')"
  "get_secure_path example_world ''proj'' ''ws'' ''ag'' ''sess'' = Inr ''/workspaces/ws/ag/sess/proj''"
  "fs example_world ''/workspaces/ws/ag/sess/proj'' = Some proj_dir"
  by (simp_all add: example_world_def literal_compile_def example_resolver_def posix_join_def
      example_fs_def)



lemma example_recursive_hello:
  "grep_search example_world ''proj'' ''hello'' ''ws'' ''ag'' ''sess'' True =
    (Returns [(''success'', PyBool True), (''pattern'', PyStr ''hello''), (''path'', PyStr ''proj''),
      (''recursive'', PyBool True),
      (''matches'', PyList [\<lparr>file' = ''proj/src/foo.txt'', line_number = 1,
                              line_content = ''hello world''\<rparr>]),
      (''total_matches'', PyInt 1)],
     [Resolve, IsFile ''/workspaces/ws/ag/sess/proj'', Scandir ''/workspaces/ws/ag/sess/proj'',
      Open ''/workspaces/ws/ag/sess/proj/notes.txt'', Open ''/workspaces/ws/ag/sess/proj/locked.txt'',
      Scandir ''/workspaces/ws/ag/sess/proj/src'', Open ''/workspaces/ws/ag/sess/proj/src/foo.txt''])"
  by code_simp

lemma example_flat_hello:
  "grep_search example_world ''proj'' ''hello'' ''ws'' ''ag'' ''sess'' False =
    (Returns [(''success'', PyBool True), (''pattern'', PyStr ''hello''), (''path'', PyStr ''proj''),
      (''recursive'', PyBool False), (''matches'', PyList []), (''total_matches'', PyInt 0)],
     [Resolve, IsFile ''/workspaces/ws/ag/sess/proj'', Listdir ''/workspaces/ws/ag/sess/proj'',
      IsFile ''/workspaces/ws/ag/sess/proj/src'', IsFile ''/workspaces/ws/ag/sess/proj/node_modules'',
      IsFile ''/workspaces/ws/ag/sess/proj/notes.txt'', Open ''/workspaces/ws/ag/sess/proj/notes.txt'',
      IsFile ''/workspaces/ws/ag/sess/proj/icon.PNG'', IsFile ''/workspaces/ws/ag/sess/proj/locked.txt'',
      Open ''/workspaces/ws/ag/sess/proj/locked.txt'', IsFile ''/workspaces/ws/ag/sess/proj/build''])"
  by code_simp

lemma example_flat_todo:
  "grep_search example_world ''proj'' ''TODO'' ''ws'' ''ag'' ''sess'' False =
    (Returns [(''success'', PyBool True), (''pattern'', PyStr ''TODO''), (''path'', PyStr ''proj''),
      (''recursive'', PyBool False),
      (''matches'', PyList [\<lparr>file' = ''proj/notes.txt'', line_number = 2,
                              line_content = ''TODO: fix''\<rparr>]),
      (''total_matches'', PyInt 1)],
     [Resolve, IsFile ''/workspaces/ws/ag/sess/proj'', Listdir ''/workspaces/ws/ag/sess/proj'',
      IsFile ''/workspaces/ws/ag/sess/proj/src'', IsFile ''/workspaces/ws/ag/sess/proj/node_modules'',
      IsFile ''/workspaces/ws/ag/sess/proj/notes.txt'', Open ''/workspaces/ws/ag/sess/proj/notes.txt'',
      IsFile ''/workspaces/ws/ag/sess/proj/icon.PNG'', IsFile ''/workspaces/ws/ag/sess/proj/locked.txt'',
      Open ''/workspaces/ws/ag/sess/proj/locked.txt'', IsFile ''/workspaces/ws/ag/sess/proj/build''])"
  by code_simp

text \<open>
  The lines a file yields before its read fails are searched: the match of the first
  line is reported, the decoding error is absorbed.
\<close>

section \<open>The cap on the number of matches\<close>

lemma scan_lines_capped:
  "length ms \<le> MAX_MATCHES \<Longrightarrow> length (fst (scan_lines regex dp i ls ms)) \<le> MAX_MATCHES"
  by (induction ls arbitrary: i ms) auto

lemma process_file_capped:
  assumes "length (matches st) \<le> MAX_MATCHES"
  shows "length (matches (fst (process_file w regex sr p ls failure st))) \<le> MAX_MATCHES"
proof -
  have "length (fst (scan_lines regex (display_path_of w sr p) 1 ls (matches st))) \<le> MAX_MATCHES"
    using assms by (rule scan_lines_capped)
  then show ?thesis
    using assms
    by (auto simp: process_file_def log_event_def Let_def split: prod.splits bool.splits option.splits)
qed

lemma scan_filenames_capped:
  "length (matches st) \<le> MAX_MATCHES \<Longrightarrow>
   length (matches (fst (scan_filenames w regex sr root entries st))) \<le> MAX_MATCHES"
proof (induction entries arbitrary: st)
  case Nil
  then show ?case by simp
next
  case (Cons entry rest)
  obtain filename nd where entry: "entry = (filename, nd)" by (cases entry)
  show ?case
  proof (cases nd)
    case (File ls failure)
    let ?r = "process_file w regex sr (path_join w root filename) ls failure st"
    have "length (matches (fst ?r)) \<le> MAX_MATCHES"
      using Cons.prems by (rule process_file_capped)
    then show ?thesis
      using Cons.IH [of "fst ?r"] Cons.prems entry File
      by (auto split: prod.splits signal.splits)
  qed (use Cons entry in auto)
qed

lemma scan_listdir_capped:
  "length (matches st) \<le> MAX_MATCHES \<Longrightarrow>
   length (matches (fst (scan_listdir w regex sr root entries st))) \<le> MAX_MATCHES"
proof (induction entries arbitrary: st)
  case Nil
  then show ?case by simp
next
  case (Cons entry rest)
  obtain item nd where entry: "entry = (item, nd)" by (cases entry)
  let ?st1 = "log_event (IsFile (path_join w root item)) st"
  have st1: "length (matches ?st1) \<le> MAX_MATCHES"
    using Cons.prems by (simp add: log_event_def)
  show ?case
  proof (cases nd)
    case (File ls failure)
    let ?r = "process_file w regex sr (path_join w root item) ls failure ?st1"
    have "length (matches (fst ?r)) \<le> MAX_MATCHES"
      using st1 by (rule process_file_capped)
    then show ?thesis
      using Cons.IH [of "fst ?r"] entry File
      by (auto simp: Let_def split: prod.splits signal.splits)
  qed (use Cons.IH [OF st1] entry in \<open>auto simp: Let_def\<close>)
qed

lemma walk_capped:
  "length (matches st) \<le> MAX_MATCHES \<longrightarrow>
   length (matches (fst (walk w regex sr root nd st))) \<le> MAX_MATCHES"
  "length (matches st) \<le> MAX_MATCHES \<longrightarrow>
   length (matches (fst (walk_dirs w regex sr root entries st))) \<le> MAX_MATCHES"
proof (induction root nd st and root entries st rule: tree_induct [where join = "path_join w"])
  case (Dir root entries st)
  let ?st1 = "log_event (Scandir root) st"
  let ?r = "scan_filenames w regex sr root (nondirs entries) ?st1"
  show ?case
  proof
    assume "length (matches st) \<le> MAX_MATCHES"
    then have st1: "length (matches ?st1) \<le> MAX_MATCHES"
      by (simp add: log_event_def)
    then have r: "length (matches (fst ?r)) \<le> MAX_MATCHES"
      by (rule scan_filenames_capped)
    show "length (matches (fst (walk w regex sr root (Dir entries) st))) \<le> MAX_MATCHES"
      using st1 r Dir [of "fst ?r"]
      by (auto simp: Let_def split: prod.splits signal.splits)
  qed
next
  case (Cons root d nd rest st)
  let ?r = "walk w regex sr (path_join w root d) nd st"
  show ?case
  proof
    assume "length (matches st) \<le> MAX_MATCHES"
    then have r: "length (matches (fst ?r)) \<le> MAX_MATCHES"
      using Cons(1) by simp
    show "length (matches (fst (walk_dirs w regex sr root ((d, nd) # rest) st))) \<le> MAX_MATCHES"
      using r Cons(2) [of "fst ?r"]
      by (auto split: prod.splits signal.splits)
  qed
qed (auto simp: log_event_def)

lemma search_capped:
  assumes "length (matches st) \<le> MAX_MATCHES"
  shows "length (matches (fst (search w regex sr p recursive st))) \<le> MAX_MATCHES"
proof (cases "node_at w p")
  case (File ls failure)
  then show ?thesis
    using process_file_capped [OF assms] by (simp add: search_def)
next
  case (Dir entries)
  have "length (matches (log_event (Listdir p) st)) \<le> MAX_MATCHES"
    using assms by (simp add: log_event_def)
  then show ?thesis
    using Dir walk_capped(1) assms scan_listdir_capped by (simp add: search_def del: walk.simps)
next
  case (Unreadable e)
  then show ?thesis
    using walk_capped(1) assms by (simp add: search_def log_event_def del: walk.simps)
qed

section \<open>The envelopes\<close>

lemma lookup_error_envelope: "k \<noteq> ''error'' \<Longrightarrow> lookup_key (Returns (error_envelope path e)) k = None"
  by (simp add: error_envelope_def lookup_key_def split: exn_kind.splits)

lemma grep_search_success_cases:
  assumes "lookup_key (fst (grep_search w path pattern workspace_id agent_id session_id recursive))
             k = Some v"
    and "k \<noteq> ''error''"
  obtains regex secure_path st sg where
    "re_compile w pattern = Compiled regex"
    "get_secure_path w path workspace_id agent_id session_id = Inr secure_path"
    "search w regex (session_root_of w workspace_id agent_id session_id) secure_path recursive
       (initial_state secure_path) = (st, sg)"
    "sg = ReturnNone \<or> sg = STOP"
    "grep_search w path pattern workspace_id agent_id session_id recursive =
       (Returns (success_envelope pattern path recursive (matches st)), trace st)"
proof (cases "re_compile w pattern")
  case (ReError msg)
  then show ?thesis
    using assms by (simp add: grep_search_def lookup_key_def)
next
  case (CompileRaises e)
  then show ?thesis
    using assms by (simp add: grep_search_def lookup_key_def)
next
  case (Compiled regex)
  note regex = this
  show ?thesis
  proof (cases "get_secure_path w path workspace_id agent_id session_id")
    case (Inl e)
    then show ?thesis
      using assms regex by (simp add: grep_search_def lookup_error_envelope)
  next
    case (Inr secure_path)
    obtain st sg where run:
      "search w regex (session_root_of w workspace_id agent_id session_id) secure_path recursive
         (initial_state secure_path) = (st, sg)"
      by (cases "search w regex (session_root_of w workspace_id agent_id session_id) secure_path
           recursive (initial_state secure_path)")
    show ?thesis
    proof (cases sg)
      case (Raise e)
      then show ?thesis
        using assms regex Inr run by (simp add: grep_search_def lookup_error_envelope)
    next
      case ReturnNone
      then show ?thesis
        using regex Inr run that by (simp add: grep_search_def)
    next
      case STOP
      then show ?thesis
        using regex Inr run that by (simp add: grep_search_def)
    qed
  qed
qed

lemma lookup_success_envelope:
  "lookup_key (Returns (success_envelope pattern path recursive ms)) ''matches'' = Some (PyList ms)"
  "lookup_key (Returns (success_envelope pattern path recursive ms)) ''total_matches'' = Some (PyInt (int (length ms)))"
  "lookup_key (Returns (success_envelope pattern path recursive ms)) ''success'' = Some (PyBool True)"
  "lookup_key (Returns (success_envelope pattern path recursive ms)) ''warning'' = None \<longleftrightarrow> length ms < MAX_MATCHES"
  by (simp_all add: success_envelope_def lookup_key_def Let_def)

lemma envelope_shapes:
  "(\<exists>e. fst (grep_search w path pattern workspace_id agent_id session_id recursive) = Escapes e)
   \<or> keys (fst (grep_search w path pattern workspace_id agent_id session_id recursive))
       = Some [''error'']
   \<or> keys (fst (grep_search w path pattern workspace_id agent_id session_id recursive))
       = Some [''success'', ''pattern'', ''path'', ''recursive'', ''matches'', ''total_matches'']
   \<or> keys (fst (grep_search w path pattern workspace_id agent_id session_id recursive))
       = Some [''success'', ''pattern'', ''path'', ''recursive'', ''matches'', ''total_matches'',
               ''warning'']"
  by (auto simp: grep_search_def keys_def error_envelope_def success_envelope_def Let_def
      split: compile_result.splits sum.splits prod.splits signal.splits exn_kind.splits)

lemma grep_search_trace_cases:
  "snd (grep_search w path pattern workspace_id agent_id session_id recursive) = []
   \<or> snd (grep_search w path pattern workspace_id agent_id session_id recursive) = [Resolve]
   \<or> (\<exists>regex secure_path.
        re_compile w pattern = Compiled regex
        \<and> get_secure_path w path workspace_id agent_id session_id = Inr secure_path
        \<and> snd (grep_search w path pattern workspace_id agent_id session_id recursive)
            = trace (fst (search w regex (session_root_of w workspace_id agent_id session_id)
                secure_path recursive (initial_state secure_path))))"
  by (auto simp: grep_search_def Let_def split: compile_result.splits sum.splits prod.splits signal.splits)

text \<open>
  Claim C1. Whenever the request returns a success envelope, \<open>total_matches\<close> is the
  length of \<open>matches\<close> and is at most 1000, whatever the tree holds.
\<close>

theorem total_matches_capped:
  assumes "lookup_key (fst (grep_search w path pattern workspace_id agent_id session_id recursive))
             ''success'' = Some (PyBool True)"
  shows "\<exists>ms. lookup_key (fst (grep_search w path pattern workspace_id agent_id session_id recursive))
                ''matches'' = Some (PyList ms)
            \<and> lookup_key (fst (grep_search w path pattern workspace_id agent_id session_id recursive))
                ''total_matches'' = Some (PyInt (int (length ms)))
            \<and> length ms \<le> 1000"
proof -
  from assms obtain regex secure_path st sg where
    run: "search w regex (session_root_of w workspace_id agent_id session_id) secure_path recursive
       (initial_state secure_path) = (st, sg)"
    and res: "grep_search w path pattern workspace_id agent_id session_id recursive =
       (Returns (success_envelope pattern path recursive (matches st)), trace st)"
    by (rule grep_search_success_cases) simp
  have "length (matches (initial_state secure_path)) \<le> MAX_MATCHES"
    by (simp add: initial_state_def)
  then have "length (matches (fst (search w regex (session_root_of w workspace_id agent_id session_id)
      secure_path recursive (initial_state secure_path)))) \<le> MAX_MATCHES"
    by (rule search_capped)
  then have "length (matches st) \<le> 1000"
    using run by (simp add: MAX_MATCHES_def)
  then show ?thesis
    using res by (simp add: lookup_success_envelope)
qed

theorem total_matches_capped_witness:
  "lookup_key (fst (grep_search example_world ''proj'' ''hello'' ''ws'' ''ag'' ''sess'' True))
     ''success'' = Some (PyBool True)
   \<and> (\<exists>ms. lookup_key (fst (grep_search example_world ''proj'' ''hello'' ''ws'' ''ag'' ''sess'' True))
                ''matches'' = Some (PyList ms)
            \<and> lookup_key (fst (grep_search example_world ''proj'' ''hello'' ''ws'' ''ag'' ''sess'' True))
                ''total_matches'' = Some (PyInt (int (length ms)))
            \<and> length ms \<le> 1000)"
proof -
  have h: "lookup_key (fst (grep_search example_world ''proj'' ''hello'' ''ws'' ''ag'' ''sess'' True))
     ''success'' = Some (PyBool True)"
    by code_simp
  show ?thesis
    using h total_matches_capped [OF h] by simp
qed

section \<open>Requests on a single file\<close>







section \<open>Failing fast on a malformed pattern\<close>

text \<open>
  Where \<open>re.compile\<close> raises \<open>re.error\<close>, the result is the error envelope with the message
  of the regex engine, and the request has made no call at all: neither the resolver nor
  the filesystem was touched.
\<close>

lemma re_error_fails_fast:
  assumes "re_compile w pattern = ReError msg"
  shows "grep_search w path pattern workspace_id agent_id session_id recursive
           = (Returns [(''error'', PyStr (''Invalid regex pattern: '' @ msg))], [])"
  using assms by (simp add: grep_search_def)

lemma example_re_error:
  "re_compile example_world ''['' = ReError ''unterminated character set''
   \<and> grep_search example_world ''proj'' ''['' ''ws'' ''ag'' ''sess'' True
       = (Returns [(''error'', PyStr ''Invalid regex pattern: unterminated character set'')], [])"
  by (simp add: example_world_def literal_compile_def grep_search_def)

text \<open>
  Claim C3 at a pattern on which \<open>re.compile\<close> raises an exception that is not a
  \<open>re.error\<close> (\<open>OverflowError\<close> for the pattern \<open>a{4294967296}\<close>): the pattern does not
  compile, yet no error envelope is returned. The exception leaves \<open>grep_search\<close>, which
  returns no dictionary at all; no call was made before.
\<close>

theorem compile_exception_escapes:
  assumes "re_compile w pattern = CompileRaises e"
  shows "grep_search w path pattern workspace_id agent_id session_id recursive = (Escapes e, [])
    \<and> lookup_key (fst (grep_search w path pattern workspace_id agent_id session_id recursive))
          ''error'' = None"
  using assms by (simp add: grep_search_def lookup_key_def)

theorem compile_exception_escapes_witness:
  "re_compile example_world ''a{4294967296}''
     = CompileRaises (Exn OtherException ''the repetition number is too large'')
   \<and> grep_search example_world ''proj'' ''a{4294967296}'' ''ws'' ''ag'' ''sess'' True
       = (Escapes (Exn OtherException ''the repetition number is too large''), [])
   \<and> lookup_key (fst (grep_search example_world ''proj'' ''a{4294967296}'' ''ws'' ''ag'' ''sess'' True))
        ''error'' = None"
proof -
  have h: "re_compile example_world ''a{4294967296}''
      = CompileRaises (Exn OtherException ''the repetition number is too large'')"
    by (simp add: example_world_def literal_compile_def)
  show ?thesis
    using h compile_exception_escapes [OF h, of "''proj''" "''ws''" "''ag''" "''sess''" True]
    by (simp add: lookup_key_def)
qed

section \<open>A single file with a binary extension\<close>

text \<open>
  Claim C10. When the resolved target is a regular file whose extension is binary, the
  request succeeds with no match: \<open>matches\<close> is empty and \<open>total_matches\<close> is 0. The
  file is never opened.
\<close>

theorem binary_single_file_succeeds:
  assumes "re_compile w pattern = Compiled regex"
    and "get_secure_path w path workspace_id agent_id session_id = Inr secure_path"
    and "fs w secure_path = Some (File ls failure)"
    and "is_binary w secure_path"
  shows "grep_search w path pattern workspace_id agent_id session_id recursive
    = (Returns [(''success'', PyBool True), (''pattern'', PyStr pattern), (''path'', PyStr path),
        (''recursive'', PyBool recursive), (''matches'', PyList []), (''total_matches'', PyInt 0)],
       [Resolve, IsFile secure_path])"
  using assms
  by (simp add: grep_search_def search_def node_at_def process_file_def initial_state_def
      success_envelope_def MAX_MATCHES_def)

theorem binary_single_file_succeeds_witness:
  "re_compile example_world ''TODO'' = Compiled (contains ''TODO'')
   \<and> get_secure_path example_world ''proj/icon.PNG'' ''ws'' ''ag'' ''sess''
       = Inr ''/workspaces/ws/ag/sess/proj/icon.PNG''
   \<and> fs example_world ''/workspaces/ws/ag/sess/proj/icon.PNG'' = Some (File [''TODO: fix\<newline>''] None)
   \<and> is_binary example_world ''/workspaces/ws/ag/sess/proj/icon.PNG''
   \<and> grep_search example_world ''proj/icon.PNG'' ''TODO'' ''ws'' ''ag'' ''sess'' False
    = (Returns [(''success'', PyBool True), (''pattern'', PyStr ''TODO''), (''path'', PyStr ''proj/icon.PNG''),
        (''recursive'', PyBool False), (''matches'', PyList []), (''total_matches'', PyInt 0)],
       [Resolve, IsFile ''/workspaces/ws/ag/sess/proj/icon.PNG''])"
proof -
  have h1: "re_compile example_world ''TODO'' = Compiled (contains ''TODO'')"
    by (simp add: example_world_def literal_compile_def)
  have h2: "get_secure_path example_world ''proj/icon.PNG'' ''ws'' ''ag'' ''sess''
       = Inr ''/workspaces/ws/ag/sess/proj/icon.PNG''"
    by (simp add: example_world_def example_resolver_def posix_join_def)
  have h3: "fs example_world ''/workspaces/ws/ag/sess/proj/icon.PNG'' = Some (File [''TODO: fix\<newline>''] None)"
    by (simp add: example_world_def example_fs_def icon_file_def)
  have h4: "is_binary example_world ''/workspaces/ws/ag/sess/proj/icon.PNG''"
    by code_simp
  show ?thesis
    using h1 h2 h3 h4 binary_single_file_succeeds [OF h1 h2 h3 h4, where recursive = False]
    by simp
qed

section \<open>A target that does not exist\<close>

text \<open>
  Claim C8 at a target that does not exist. Without \<open>recursive\<close> the request ends in the
  error envelope "Directory or file not found"; with \<open>recursive\<close> the same request ends
  in a success envelope with no match, since \<open>os.walk\<close> swallows the error of the
  listing.
\<close>

theorem missing_target_recursive_succeeds:
  "fs example_world ''/workspaces/ws/ag/sess/missing'' = None
   \<and> grep_search example_world ''missing'' ''TODO'' ''ws'' ''ag'' ''sess'' False
       = (Returns [(''error'', PyStr ''Directory or file not found: missing'')],
          [Resolve, IsFile ''/workspaces/ws/ag/sess/missing'', Listdir ''/workspaces/ws/ag/sess/missing''])
   \<and> grep_search example_world ''missing'' ''TODO'' ''ws'' ''ag'' ''sess'' True
       = (Returns [(''success'', PyBool True), (''pattern'', PyStr ''TODO''), (''path'', PyStr ''missing''),
           (''recursive'', PyBool True), (''matches'', PyList []), (''total_matches'', PyInt 0)],
          [Resolve, IsFile ''/workspaces/ws/ag/sess/missing'', Scandir ''/workspaces/ws/ag/sess/missing''])"
  by code_simp

section \<open>Invariants of the search\<close>

lemma scan_filenames_invariant:
  assumes pf: "\<And>name ls failure st. (name, File ls failure) \<in> set entries \<Longrightarrow> I st \<Longrightarrow>
      I (fst (process_file w regex sr (path_join w root name) ls failure st))"
  shows "I st \<Longrightarrow> I (fst (scan_filenames w regex sr root entries st))"
  using pf
proof (induction entries arbitrary: st)
  case Nil
  then show ?case by simp
next
  case (Cons entry rest)
  obtain filename nd where entry: "entry = (filename, nd)" by (cases entry)
  have rest: "I st' \<Longrightarrow> I (fst (scan_filenames w regex sr root rest st'))" for st'
    using Cons.IH Cons.prems(2) by simp
  show ?case
  proof (cases nd)
    case (File ls failure)
    let ?r = "process_file w regex sr (path_join w root filename) ls failure st"
    have "I (fst ?r)"
      using Cons.prems entry File by simp
    then show ?thesis
      using rest [of "fst ?r"] Cons.prems(1) entry File
      by (auto split: prod.splits signal.splits)
  qed (use rest Cons.prems(1) entry in auto)
qed

lemma scan_listdir_invariant:
  assumes pf: "\<And>name ls failure st. (name, File ls failure) \<in> set entries \<Longrightarrow> I st \<Longrightarrow>
      I (fst (process_file w regex sr (path_join w root name) ls failure st))"
    and lg: "\<And>p st. I st \<Longrightarrow> I (log_event (IsFile p) st)"
  shows "I st \<Longrightarrow> I (fst (scan_listdir w regex sr root entries st))"
  using pf
proof (induction entries arbitrary: st)
  case Nil
  then show ?case by simp
next
  case (Cons entry rest)
  obtain item nd where entry: "entry = (item, nd)" by (cases entry)
  have rest: "I st' \<Longrightarrow> I (fst (scan_listdir w regex sr root rest st'))" for st'
    using Cons.IH Cons.prems(2) by simp
  let ?st1 = "log_event (IsFile (path_join w root item)) st"
  have st1: "I ?st1" using Cons.prems(1) by (rule lg)
  show ?case
  proof (cases nd)
    case (File ls failure)
    let ?r = "process_file w regex sr (path_join w root item) ls failure ?st1"
    have "I (fst ?r)"
      using Cons.prems(2) st1 entry File by simp
    then show ?thesis
      using rest [of "fst ?r"] entry File
      by (auto simp: Let_def split: prod.splits signal.splits)
  qed (use rest [OF st1] entry in \<open>auto simp: Let_def\<close>)
qed

lemma walk_invariant:
  assumes pf: "\<And>q ls failure st. V q ls \<Longrightarrow> I st \<Longrightarrow>
      I (fst (process_file w regex sr q ls failure st))"
    and lg: "\<And>p st. I st \<Longrightarrow> I (log_event (Scandir p) st)"
  shows "(\<forall>q ls. file_below w root nd q ls \<longrightarrow> V q ls) \<longrightarrow> I st
      \<longrightarrow> I (fst (walk w regex sr root nd st))"
    and "(\<forall>d c q ls. (d, c) \<in> set entries \<longrightarrow> file_below w (path_join w root d) c q ls \<longrightarrow> V q ls)
      \<longrightarrow> I st \<longrightarrow> I (fst (walk_dirs w regex sr root entries st))"
proof (induction root nd st and root entries st rule: tree_induct [where join = "path_join w"])
  case (Dir root entries st)
  let ?st1 = "log_event (Scandir root) st"
  let ?r = "scan_filenames w regex sr root (nondirs entries) ?st1"
  let ?dirs = "filter (\<lambda>(d, nd). d \<notin> IGNORED_DIRS) (subdirs entries)"
  show ?case
  proof (intro impI)
    assume v: "\<forall>q ls. file_below w root (Dir entries) q ls \<longrightarrow> V q ls" and i: "I st"
    have st1: "I ?st1" using i by (rule lg)
    have "I (fst (process_file w regex sr (path_join w root name) ls failure st'))"
      if "(name, File ls failure) \<in> set (nondirs entries)" and "I st'" for name ls failure st'
    proof -
      have "(name, File ls failure) \<in> set entries"
        using that(1) by (simp add: nondirs_def)
      then have "file_below w root (Dir entries) (path_join w root name) ls"
        by (rule file_below.child) (rule file_below.here)
      then show ?thesis using v pf that(2) by blast
    qed
    then have r: "I (fst ?r)"
      using st1 by (rule scan_filenames_invariant)
    have "\<forall>d c q ls. (d, c) \<in> set ?dirs \<longrightarrow> file_below w (path_join w root d) c q ls \<longrightarrow> V q ls"
      using v by (auto simp: subdirs_def intro: file_below.child)
    then have "I (fst (walk_dirs w regex sr root ?dirs (fst ?r)))"
      using Dir [of "fst ?r"] r by blast
    then show "I (fst (walk w regex sr root (Dir entries) st))"
      using st1 r
      by (auto simp: Let_def split: prod.splits signal.splits)
  qed
next
  case (Cons root d nd rest st)
  let ?r = "walk w regex sr (path_join w root d) nd st"
  show ?case
  proof (intro impI)
    assume v: "\<forall>d' c q ls. (d', c) \<in> set ((d, nd) # rest)
        \<longrightarrow> file_below w (path_join w root d') c q ls \<longrightarrow> V q ls" and i: "I st"
    have r: "I (fst ?r)"
      using Cons(1) [of st] v i by simp
    have "I (fst (walk_dirs w regex sr root rest (fst ?r)))"
      using Cons(2) [of "fst ?r"] v r by simp
    then show "I (fst (walk_dirs w regex sr root ((d, nd) # rest) st))"
      using r by (auto split: prod.splits signal.splits)
  qed
qed (auto simp: lg)

lemma search_invariant:
  assumes pf: "\<And>q ls failure st. V q ls \<Longrightarrow> I st \<Longrightarrow>
      I (fst (process_file w regex sr q ls failure st))"
    and lg: "\<And>ev st. I st \<Longrightarrow> (\<forall>p. ev \<noteq> Open p) \<Longrightarrow> I (log_event ev st)"
    and v: "\<And>q ls. file_below w p (node_at w p) q ls \<Longrightarrow> V q ls"
    and i: "I st"
  shows "I (fst (search w regex sr p recursive st))"
proof (cases "node_at w p")
  case (File ls failure)
  have "file_below w p (node_at w p) p ls"
    unfolding File by (rule file_below.here)
  then have "V p ls" by (rule v)
  then have "I (fst (process_file w regex sr p ls failure st))"
    using i by (rule pf)
  then show ?thesis
    using File by (simp add: search_def)
next
  case (Dir entries)
  show ?thesis
  proof (cases recursive)
    case True
    have scandir: "I (log_event (Scandir q) st')" if "I st'" for q st'
      using that by (rule lg) simp
    have "I (fst (walk w regex sr p (node_at w p) st))"
      using walk_invariant(1) [of V I w regex sr p "node_at w p" st, OF pf scandir] v i by blast
    then show ?thesis
      using Dir True by (simp add: search_def del: walk.simps)
  next
    case False
    have files: "I (fst (process_file w regex sr (path_join w p name) ls failure st'))"
      if "(name, File ls failure) \<in> set entries" and "I st'" for name ls failure st'
    proof -
      have "file_below w p (Dir entries) (path_join w p name) ls"
        using that(1) by (rule file_below.child) (rule file_below.here)
      then have "V (path_join w p name) ls" using v Dir by simp
      then show ?thesis using that(2) by (rule pf)
    qed
    have listed: "I (log_event (Listdir p) st)"
      using i by (rule lg) simp
    have isfile: "I (log_event (IsFile q) st')" if "I st'" for q st'
      using that by (rule lg) simp
    have "I (fst (scan_listdir w regex sr p entries (log_event (Listdir p) st)))"
      using files isfile listed by (rule scan_listdir_invariant [where I = I])
    then show ?thesis
      using Dir False by (simp add: search_def)
  qed
next
  case (Unreadable e)
  have "I (log_event (Scandir p) st)" "I (log_event (Listdir p) st)"
    using i by (auto intro: lg)
  then show ?thesis
    using Unreadable by (simp add: search_def)
qed

lemma valid_pattern_resolves:
  assumes "re_compile w pattern = Compiled regex"
  shows "Resolve \<in> set (snd (grep_search w path pattern workspace_id agent_id session_id recursive))"
proof -
  have "Resolve \<in> set (trace (fst (search w regex sr secure_path recursive (initial_state secure_path))))"
    for sr secure_path
  proof (rule search_invariant [where I = "\<lambda>st. Resolve \<in> set (trace st)" and V = "\<lambda>q ls. True"])
    fix q ls failure and st' :: state
    assume "Resolve \<in> set (trace st')"
    then show "Resolve \<in> set (trace (fst (process_file w regex sr q ls failure st')))"
      by (auto simp: process_file_def log_event_def Let_def split: prod.splits bool.splits option.splits)
  qed (simp_all add: log_event_def initial_state_def)
  note resolved = this
  show ?thesis
  proof (cases "get_secure_path w path workspace_id agent_id session_id")
    case (Inl e)
    then show ?thesis using assms by (simp add: grep_search_def)
  next
    case (Inr secure_path)
    let ?run = "search w regex (session_root_of w workspace_id agent_id session_id) secure_path
      recursive (initial_state secure_path)"
    have "snd (grep_search w path pattern workspace_id agent_id session_id recursive)
        = trace (fst ?run)"
      using assms Inr by (cases ?run) (auto simp: grep_search_def split: signal.splits)
    then show ?thesis using resolved by simp
  qed
qed

section \<open>Where a match record comes from\<close>

lemma scan_lines_records:
  "m \<in> set (fst (scan_lines regex dp i ls ms)) \<Longrightarrow>
   m \<in> set ms \<or> (\<exists>k<length ls. regex (ls ! k)
      \<and> m = \<lparr>file' = dp, line_number = i + int k, line_content = strip (ls ! k)\<rparr>)"
proof (induction ls arbitrary: i ms)
  case Nil
  then show ?case by simp
next
  case (Cons line rest)
  show ?case
  proof (cases "MAX_MATCHES \<le> length ms")
    case True
    then show ?thesis using Cons.prems by simp
  next
    case False
    let ?ms' = "if regex line
      then ms @ [\<lparr>file' = dp, line_number = i, line_content = strip line\<rparr>] else ms"
    have "m \<in> set (fst (scan_lines regex dp (i + 1) rest ?ms'))"
      using Cons.prems False by simp
    then consider "m \<in> set ?ms'"
      | k where "k < length rest" "regex (rest ! k)"
          "m = \<lparr>file' = dp, line_number = i + 1 + int k, line_content = strip (rest ! k)\<rparr>"
      using Cons.IH [of "i + 1" ?ms'] by blast
    then show ?thesis
    proof cases
      case 1
      then consider "m \<in> set ms"
        | "regex line" "m = \<lparr>file' = dp, line_number = i, line_content = strip line\<rparr>"
        by (auto split: if_splits)
      then show ?thesis
      proof cases
        case 1
        then show ?thesis by simp
      next
        case 2
        then have "0 < length (line # rest) \<and> regex ((line # rest) ! 0)
          \<and> m = \<lparr>file' = dp, line_number = i + int 0, line_content = strip ((line # rest) ! 0)\<rparr>"
          by simp
        then show ?thesis by blast
      qed
    next
      case 2
      then have "Suc k < length (line # rest) \<and> regex ((line # rest) ! Suc k)
        \<and> m = \<lparr>file' = dp, line_number = i + int (Suc k), line_content = strip ((line # rest) ! Suc k)\<rparr>"
        by simp
      then show ?thesis by blast
    qed
  qed
qed

lemma process_file_records:
  assumes "m \<in> set (matches (fst (process_file w regex sr q ls failure st)))"
  shows "m \<in> set (matches st)
    \<or> (\<not> is_binary w q \<and> (\<exists>k<length ls. regex (ls ! k) \<and> m = record_of w sr q ls k))"
proof (cases "is_binary w q")
  case True
  then show ?thesis using assms by (simp add: process_file_def)
next
  case False
  have "matches (fst (process_file w regex sr q ls failure st))
      = fst (scan_lines regex (display_path_of w sr q) 1 ls (matches st))"
    using False
    by (auto simp: process_file_def log_event_def Let_def split: prod.splits bool.splits option.splits)
  then have "m \<in> set (fst (scan_lines regex (display_path_of w sr q) 1 ls (matches st)))"
    using assms by simp
  then have "m \<in> set (matches st) \<or> (\<exists>k<length ls. regex (ls ! k)
      \<and> m = \<lparr>file' = display_path_of w sr q, line_number = 1 + int k, line_content = strip (ls ! k)\<rparr>)"
    by (rule scan_lines_records)
  then show ?thesis
    using False by (auto simp: record_of_def)
qed

lemma search_records:
  assumes "\<forall>m \<in> set (matches st). from_tree w regex sr p m"
  shows "\<forall>m \<in> set (matches (fst (search w regex sr p recursive st))). from_tree w regex sr p m"
proof (rule search_invariant [where I = "\<lambda>st. \<forall>m \<in> set (matches st). from_tree w regex sr p m"
      and V = "\<lambda>q ls. file_below w p (node_at w p) q ls"])
  fix q ls failure and st' :: state
  assume below: "file_below w p (node_at w p) q ls"
    and old: "\<forall>m \<in> set (matches st'). from_tree w regex sr p m"
  show "\<forall>m \<in> set (matches (fst (process_file w regex sr q ls failure st'))). from_tree w regex sr p m"
  proof
    fix m
    assume "m \<in> set (matches (fst (process_file w regex sr q ls failure st')))"
    then have "m \<in> set (matches st')
      \<or> (\<not> is_binary w q \<and> (\<exists>k<length ls. regex (ls ! k) \<and> m = record_of w sr q ls k))"
      by (rule process_file_records)
    then show "from_tree w regex sr p m"
      using old below unfolding from_tree_def by blast
  qed
qed (use assms in \<open>simp_all add: log_event_def\<close>)

lemma grep_search_records:
  assumes "lookup_key (fst (grep_search w path pattern workspace_id agent_id session_id recursive))
             ''matches'' = Some (PyList ms)"
    and "m \<in> set ms"
  shows "\<exists>regex secure_path.
      re_compile w pattern = Compiled regex
      \<and> get_secure_path w path workspace_id agent_id session_id = Inr secure_path
      \<and> from_tree w regex (session_root_of w workspace_id agent_id session_id) secure_path m"
proof -
  let ?sr = "session_root_of w workspace_id agent_id session_id"
  from assms(1) obtain regex secure_path st sg where
    comp: "re_compile w pattern = Compiled regex"
    and res: "get_secure_path w path workspace_id agent_id session_id = Inr secure_path"
    and run: "search w regex ?sr secure_path recursive (initial_state secure_path) = (st, sg)"
    and out: "grep_search w path pattern workspace_id agent_id session_id recursive =
       (Returns (success_envelope pattern path recursive (matches st)), trace st)"
    by (rule grep_search_success_cases) simp_all
  have "\<forall>m \<in> set (matches (fst (search w regex ?sr secure_path recursive (initial_state secure_path)))).
      from_tree w regex ?sr secure_path m"
    by (rule search_records) (simp add: initial_state_def)
  moreover have "ms = matches st"
    using assms(1) out by (simp add: lookup_success_envelope)
  ultimately have "from_tree w regex ?sr secure_path m"
    using assms(2) run by simp
  then show ?thesis using comp res by blast
qed

lemma file_below_fs_update:
  "file_below (w\<lparr>fs := f\<rparr>) p nd q ls = file_below w p nd q ls"
proof
  assume "file_below (w\<lparr>fs := f\<rparr>) p nd q ls"
  then show "file_below w p nd q ls"
    by induction (auto intro: file_below.intros)
next
  assume "file_below w p nd q ls"
  then show "file_below (w\<lparr>fs := f\<rparr>) p nd q ls"
  proof induction
    case (here p ls failure)
    show ?case by (rule file_below.here)
  next
    case (child name nd entries p q ls)
    have "file_below (w\<lparr>fs := f\<rparr>) (path_join (w\<lparr>fs := f\<rparr>) p name) nd q ls"
      using child.IH by simp
    with child.hyps(1) show ?case by (rule file_below.child)
  qed
qed

lemma grep_search_records_of_view:
  assumes same: "grep_search w path pattern workspace_id agent_id session_id recursive
      = grep_search (w\<lparr>fs := f\<rparr>) path pattern workspace_id agent_id session_id recursive"
    and found: "lookup_key (fst (grep_search w path pattern workspace_id agent_id session_id recursive))
             ''matches'' = Some (PyList ms)"
    and m: "m \<in> set ms"
  shows "\<exists>regex secure_path q ls k.
      re_compile w pattern = Compiled regex
      \<and> get_secure_path w path workspace_id agent_id session_id = Inr secure_path
      \<and> file_below w secure_path (node_at (w\<lparr>fs := f\<rparr>) secure_path) q ls
      \<and> k < length ls \<and> regex (ls ! k)
      \<and> m = record_of w (session_root_of w workspace_id agent_id session_id) q ls k"
proof -
  let ?w = "w\<lparr>fs := f\<rparr>"
  have "lookup_key (fst (grep_search ?w path pattern workspace_id agent_id session_id recursive))
      ''matches'' = Some (PyList ms)"
    using same found by simp
  then obtain regex secure_path where
    comp: "re_compile ?w pattern = Compiled regex"
    and res: "get_secure_path ?w path workspace_id agent_id session_id = Inr secure_path"
    and tree: "from_tree ?w regex (session_root_of ?w workspace_id agent_id session_id) secure_path m"
    using m grep_search_records by blast
  from tree obtain q ls k where
    "file_below ?w secure_path (node_at ?w secure_path) q ls" "k < length ls" "regex (ls ! k)"
    "m = record_of ?w (session_root_of ?w workspace_id agent_id session_id) q ls k"
    unfolding from_tree_def by blast
  then have "file_below w secure_path (node_at ?w secure_path) q ls \<and> k < length ls \<and> regex (ls ! k)
    \<and> m = record_of w (session_root_of w workspace_id agent_id session_id) q ls k"
    by (simp add: file_below_fs_update record_of_def display_path_of_def session_root_of_def)
  then show ?thesis
    using comp res by auto
qed

lemma strip_examples:
  "strip ''  TODO: fix  \<newline>'' = ''TODO: fix''"
  "strip ([CHR 0xC2, CHR 0xA0] @ ''TODO nbsp'' @ [CHR 0xE3, CHR 0x80, CHR 0x80] @ ''\<newline>'')
     = ''TODO nbsp''"
  "strip ''\<newline>'' = []"
  by code_simp+

text \<open>
  Claim C9, with the session root in the place of the resolved search root. Every record
  of \<open>matches\<close> comes from a line of a regular file in the tree at the resolved path: its
  \<open>file\<close> is what \<open>os.path.relpath\<close> gives for the full path of that file against the
  session root (\<open>WORKSPACES_DIR\<close> joined with the workspace, agent and session
  identifiers), and the full path itself only where \<open>relpath\<close> raises \<open>ValueError\<close>; its
  \<open>line_number\<close> is the position of the line in the file, counted from 1; its
  \<open>line_content\<close> is the line with the surrounding whitespace stripped.
\<close>

theorem match_record_shape:
  assumes "lookup_key (fst (grep_search w path pattern workspace_id agent_id session_id recursive))
             ''matches'' = Some (PyList ms)"
    and "m \<in> set ms"
  shows "\<exists>regex secure_path q ls k.
      re_compile w pattern = Compiled regex
      \<and> get_secure_path w path workspace_id agent_id session_id = Inr secure_path
      \<and> file_below w secure_path (node_at w secure_path) q ls
      \<and> k < length ls \<and> regex (ls ! k)
      \<and> file' m = (case path_relpath w q (session_root_of w workspace_id agent_id session_id) of
                     Some rel \<Rightarrow> rel | None \<Rightarrow> q)
      \<and> line_number m = int k + 1
      \<and> line_content m = strip (ls ! k)"
proof -
  from assms obtain regex secure_path where
    "re_compile w pattern = Compiled regex"
    "get_secure_path w path workspace_id agent_id session_id = Inr secure_path"
    "from_tree w regex (session_root_of w workspace_id agent_id session_id) secure_path m"
    using grep_search_records by blast
  then show ?thesis
    unfolding from_tree_def record_of_def display_path_of_def by fastforce
qed

theorem match_record_shape_witness:
  "lookup_key (fst (grep_search example_world ''proj'' ''TODO'' ''ws'' ''ag'' ''sess'' False)) ''matches''
     = Some (PyList [\<lparr>file' = ''proj/notes.txt'', line_number = 2, line_content = ''TODO: fix''\<rparr>])
   \<and> path_relpath example_world ''/workspaces/ws/ag/sess/proj/notes.txt''
        (session_root_of example_world ''ws'' ''ag'' ''sess'') = Some ''proj/notes.txt''
   \<and> strip ''  TODO: fix  \<newline>'' = ''TODO: fix''
   \<and> (\<exists>regex secure_path q ls k.
      re_compile example_world ''TODO'' = Compiled regex
      \<and> get_secure_path example_world ''proj'' ''ws'' ''ag'' ''sess'' = Inr secure_path
      \<and> file_below example_world secure_path (node_at example_world secure_path) q ls
      \<and> k < length ls \<and> regex (ls ! k)
      \<and> ''proj/notes.txt'' = (case path_relpath example_world q
                                    (session_root_of example_world ''ws'' ''ag'' ''sess'') of
                     Some rel \<Rightarrow> rel | None \<Rightarrow> q)
      \<and> (2::int) = int k + 1
      \<and> ''TODO: fix'' = strip (ls ! k))"
proof -
  have found: "lookup_key (fst (grep_search example_world ''proj'' ''TODO'' ''ws'' ''ag'' ''sess'' False))
      ''matches''
       = Some (PyList [\<lparr>file' = ''proj/notes.txt'', line_number = 2, line_content = ''TODO: fix''\<rparr>])"
    by (simp add: example_flat_todo lookup_key_def)
  have rel: "path_relpath example_world ''/workspaces/ws/ag/sess/proj/notes.txt''
        (session_root_of example_world ''ws'' ''ag'' ''sess'') = Some ''proj/notes.txt''"
    by code_simp
  have stripped: "strip ''  TODO: fix  \<newline>'' = ''TODO: fix''"
    by code_simp
  have "\<lparr>file' = ''proj/notes.txt'', line_number = 2, line_content = ''TODO: fix''\<rparr>
      \<in> set [\<lparr>file' = ''proj/notes.txt'', line_number = 2, line_content = ''TODO: fix''\<rparr>]"
    by simp
  with found have "\<exists>regex secure_path q ls k.
      re_compile example_world ''TODO'' = Compiled regex
      \<and> get_secure_path example_world ''proj'' ''ws'' ''ag'' ''sess'' = Inr secure_path
      \<and> file_below example_world secure_path (node_at example_world secure_path) q ls
      \<and> k < length ls \<and> regex (ls ! k)
      \<and> file' \<lparr>file' = ''proj/notes.txt'', line_number = 2, line_content = ''TODO: fix''\<rparr>
          = (case path_relpath example_world q
                                    (session_root_of example_world ''ws'' ''ag'' ''sess'') of
                     Some rel \<Rightarrow> rel | None \<Rightarrow> q)
      \<and> line_number \<lparr>file' = ''proj/notes.txt'', line_number = 2, line_content = ''TODO: fix''\<rparr>
          = int k + 1
      \<and> line_content \<lparr>file' = ''proj/notes.txt'', line_number = 2, line_content = ''TODO: fix''\<rparr>
          = strip (ls ! k)"
    by (rule match_record_shape)
  then show ?thesis
    using found rel stripped by simp
qed

text \<open>
  The claim as stated fails: the display path is not relative to the resolved search
  root. A search of the directory \<open>proj\<close>, resolved to \<open>/workspaces/ws/ag/sess/proj\<close>,
  reports the file \<open>notes.txt\<close> of that directory as \<open>proj/notes.txt\<close>, its path against
  the session root; against the resolved search root it is \<open>notes.txt\<close>.
\<close>

theorem display_path_not_relative_to_search_root:
  "get_secure_path example_world ''proj'' ''ws'' ''ag'' ''sess'' = Inr ''/workspaces/ws/ag/sess/proj''
   \<and> session_root_of example_world ''ws'' ''ag'' ''sess'' = ''/workspaces/ws/ag/sess''
   \<and> lookup_key (fst (grep_search example_world ''proj'' ''TODO'' ''ws'' ''ag'' ''sess'' False)) ''matches''
       = Some (PyList [\<lparr>file' = ''proj/notes.txt'', line_number = 2, line_content = ''TODO: fix''\<rparr>])
   \<and> path_relpath example_world ''/workspaces/ws/ag/sess/proj/notes.txt''
        ''/workspaces/ws/ag/sess/proj'' = Some ''notes.txt''
   \<and> path_relpath example_world ''/workspaces/ws/ag/sess/proj/notes.txt''
        ''/workspaces/ws/ag/sess'' = Some ''proj/notes.txt''"
  by code_simp

section \<open>Trees the search cannot tell apart\<close>

lemma same_entries_map:
  assumes "\<And>name nd. (name, nd) \<in> set entries \<Longrightarrow>
      is_dir (g name nd) = is_dir nd
      \<and> ((is_dir nd \<and> name \<in> IGNORED_DIRS) \<or> same_view w (path_join w p name) nd (g name nd))"
  shows "same_entries w p entries (map (\<lambda>(name, nd). (name, g name nd)) entries)"
  using assms
proof (induction entries)
  case Nil
  show ?case by simp
next
  case (Cons entry rest)
  obtain name nd where entry: "entry = (name, nd)" by (cases entry)
  have "same_entries w p rest (map (\<lambda>(name, nd). (name, g name nd)) rest)"
    using Cons by simp
  then show ?case
    using Cons.prems [of name nd] entry by auto
qed

lemma same_view_refl: "same_view w p nd nd"
proof (induction p nd rule: node_path_induct [where join = "path_join w"])
  case (Dir p entries)
  have "same_entries w p entries (map (\<lambda>(name, nd). (name, nd)) entries)"
    using Dir by (intro same_entries_map) simp
  then show ?case by simp
qed simp_all

lemma process_file_same:
  assumes "same_view w p (File ls failure) (File ls' failure')"
  shows "process_file w regex sr p ls failure st = process_file w regex sr p ls' failure' st"
  using assms
  by (auto simp: process_file_def quiet_def Let_def split: prod.splits bool.splits option.splits)

lemma scan_filenames_same:
  "same_entries w root entries entries' \<Longrightarrow>
   scan_filenames w regex sr root (nondirs entries) st
     = scan_filenames w regex sr root (nondirs entries') st"
proof (induction entries entries' arbitrary: st rule: list_induct2')
  case (4 entry rest entry' rest')
  obtain name nd where entry: "entry = (name, nd)" by (cases entry)
  obtain name' nd' where entry': "entry' = (name', nd')" by (cases entry')
  have same: "name = name'" "is_dir nd = is_dir nd'" "same_entries w root rest rest'"
    "(is_dir nd \<and> name \<in> IGNORED_DIRS) \<or> same_view w (path_join w root name) nd nd'"
    using "4.prems" entry entry' by auto
  have rest: "scan_filenames w regex sr root (nondirs rest) st'
      = scan_filenames w regex sr root (nondirs rest') st'" for st'
    using "4.IH" same(3) by simp
  show ?case
  proof (cases nd)
    case (File ls failure)
    then obtain ls' failure' where File': "nd' = File ls' failure'"
      using same(2) by (cases nd') auto
    have "process_file w regex sr (path_join w root name) ls failure st
        = process_file w regex sr (path_join w root name) ls' failure' st"
      using same(4) File File' by (intro process_file_same) simp
    then show ?thesis
      using entry entry' File File' same(1) rest
      by (auto simp: nondirs_def split: prod.splits signal.splits)
  next
    case (Dir es)
    then show ?thesis
      using entry entry' same(2) rest by (simp add: nondirs_def)
  next
    case (Unreadable e)
    then show ?thesis
      using entry entry' same(2) rest by (simp add: nondirs_def)
  qed
qed (simp_all add: nondirs_def)

lemma scan_listdir_same:
  "same_entries w root entries entries' \<Longrightarrow>
   scan_listdir w regex sr root entries st = scan_listdir w regex sr root entries' st"
proof (induction entries entries' arbitrary: st rule: list_induct2')
  case (4 entry rest entry' rest')
  obtain name nd where entry: "entry = (name, nd)" by (cases entry)
  obtain name' nd' where entry': "entry' = (name', nd')" by (cases entry')
  have same: "name = name'" "is_dir nd = is_dir nd'" "same_entries w root rest rest'"
    "(is_dir nd \<and> name \<in> IGNORED_DIRS) \<or> same_view w (path_join w root name) nd nd'"
    using "4.prems" entry entry' by auto
  have rest: "scan_listdir w regex sr root rest st' = scan_listdir w regex sr root rest' st'" for st'
    using "4.IH" same(3) by simp
  show ?case
  proof (cases nd)
    case (File ls failure)
    then obtain ls' failure' where File': "nd' = File ls' failure'"
      using same(2) by (cases nd') auto
    have "process_file w regex sr (path_join w root name) ls failure st'
        = process_file w regex sr (path_join w root name) ls' failure' st'" for st'
      using same(4) File File' by (intro process_file_same) simp
    then show ?thesis
      using entry entry' File File' same(1) rest
      by (auto simp: Let_def split: prod.splits signal.splits)
  next
    case (Dir es)
    then show ?thesis
      using entry entry' same(1,2) rest by (cases nd') (simp_all add: Let_def)
  next
    case (Unreadable e)
    then show ?thesis
      using entry entry' same(1,2) rest by (cases nd') (simp_all add: Let_def)
  qed
qed simp_all

lemma same_entries_pruned:
  "same_entries w root entries entries' \<Longrightarrow>
   same_dirs w root (filter (\<lambda>(d, nd). d \<notin> IGNORED_DIRS) (subdirs entries))
     (filter (\<lambda>(d, nd). d \<notin> IGNORED_DIRS) (subdirs entries'))"
proof (induction entries entries' rule: list_induct2')
  case (4 entry rest entry' rest')
  obtain name nd where entry: "entry = (name, nd)" by (cases entry)
  obtain name' nd' where entry': "entry' = (name', nd')" by (cases entry')
  show ?case
    using 4 entry entry' by (auto simp: same_dirs_def subdirs_def)
qed (simp_all add: same_dirs_def subdirs_def)

lemma walk_same:
  "\<forall>nd'. same_view w root nd nd' \<longrightarrow>
     walk w regex sr root nd st = walk w regex sr root nd' st"
  "\<forall>dirs'. same_dirs w root dirs dirs' \<longrightarrow>
     walk_dirs w regex sr root dirs st = walk_dirs w regex sr root dirs' st"
proof (induction root nd st and root dirs st rule: tree_induct [where join = "path_join w"])
  case (File root ls failure st)
  show ?case
  proof (intro allI impI)
    fix nd' assume "same_view w root (File ls failure) nd'"
    then show "walk w regex sr root (File ls failure) st = walk w regex sr root nd' st"
      by (cases nd') simp_all
  qed
next
  case (Unreadable root e st)
  show ?case
  proof (intro allI impI)
    fix nd' assume "same_view w root (Unreadable e) nd'"
    then show "walk w regex sr root (Unreadable e) st = walk w regex sr root nd' st"
      by (cases nd') simp_all
  qed
next
  case (Dir root entries st)
  show ?case
  proof (intro allI impI)
    fix nd' assume same: "same_view w root (Dir entries) nd'"
    then obtain entries' where nd': "nd' = Dir entries'" and es: "same_entries w root entries entries'"
      by (cases nd') simp_all
    let ?st1 = "log_event (Scandir root) st"
    have files: "scan_filenames w regex sr root (nondirs entries) ?st1
        = scan_filenames w regex sr root (nondirs entries') ?st1"
      using es by (rule scan_filenames_same)
    have dirs: "walk_dirs w regex sr root (filter (\<lambda>(d, nd). d \<notin> IGNORED_DIRS) (subdirs entries)) st'
        = walk_dirs w regex sr root (filter (\<lambda>(d, nd). d \<notin> IGNORED_DIRS) (subdirs entries')) st'"
      for st'
      using Dir [of st'] same_entries_pruned [OF es] by blast
    show "walk w regex sr root (Dir entries) st = walk w regex sr root nd' st"
      unfolding nd' walk.simps Let_def files using dirs
      by (auto split: prod.splits signal.splits)
  qed
next
  case (Nil root st)
  show ?case by (simp add: same_dirs_def)
next
  case (Cons root d nd rest st)
  show ?case
  proof (intro allI impI)
    fix dirs' assume "same_dirs w root ((d, nd) # rest) dirs'"
    then obtain nd' rest' where dirs': "dirs' = (d, nd') # rest'"
      and nd': "same_view w (path_join w root d) nd nd'" and rest': "same_dirs w root rest rest'"
      by (cases dirs') (auto simp: same_dirs_def)
    have "walk w regex sr (path_join w root d) nd st = walk w regex sr (path_join w root d) nd' st"
      using Cons(1) nd' by blast
    moreover have "walk_dirs w regex sr root rest st' = walk_dirs w regex sr root rest' st'" for st'
      using Cons(2) rest' by blast
    ultimately show "walk_dirs w regex sr root ((d, nd) # rest) st = walk_dirs w regex sr root dirs' st"
      unfolding dirs' by (auto split: prod.splits signal.splits)
  qed
qed

lemma process_file_fs_update:
  "process_file (w\<lparr>fs := f\<rparr>) regex sr p ls failure st = process_file w regex sr p ls failure st"
  by (simp add: process_file_def is_binary_def display_path_of_def)

lemma scan_filenames_fs_update:
  "scan_filenames (w\<lparr>fs := f\<rparr>) regex sr root entries st = scan_filenames w regex sr root entries st"
  by (induction entries arbitrary: st)
    (auto simp: process_file_fs_update split: node.splits prod.splits signal.splits)

lemma scan_listdir_fs_update:
  "scan_listdir (w\<lparr>fs := f\<rparr>) regex sr root entries st = scan_listdir w regex sr root entries st"
  by (induction entries arbitrary: st)
    (auto simp: process_file_fs_update Let_def split: node.splits prod.splits signal.splits)

lemma walk_fs_update:
  "walk (w\<lparr>fs := f\<rparr>) regex sr root nd st = walk w regex sr root nd st"
  "walk_dirs (w\<lparr>fs := f\<rparr>) regex sr root dirs st = walk_dirs w regex sr root dirs st"
proof (induction root nd st and root dirs st rule: tree_induct [where join = "path_join w"])
  case (Dir root entries st)
  then show ?case
    by (simp add: scan_filenames_fs_update Let_def)
next
  case (Cons root d nd rest st)
  then show ?case
    by (simp split: prod.splits signal.splits)
qed simp_all

lemma search_same:
  assumes "same_view w p (node_at w p) (node_at (w\<lparr>fs := f\<rparr>) p)"
  shows "search w regex sr p recursive st = search (w\<lparr>fs := f\<rparr>) regex sr p recursive st"
proof (cases "node_at w p")
  case (File ls failure)
  then obtain ls' failure' where File': "node_at (w\<lparr>fs := f\<rparr>) p = File ls' failure'"
    using assms by (cases "node_at (w\<lparr>fs := f\<rparr>) p") simp_all
  have "process_file w regex sr p ls failure st = process_file w regex sr p ls' failure' st"
    using assms File File' by (intro process_file_same) simp
  then show ?thesis
    using File File' by (simp add: search_def process_file_fs_update)
next
  case (Dir entries)
  then obtain entries' where Dir': "node_at (w\<lparr>fs := f\<rparr>) p = Dir entries'"
    and es: "same_entries w p entries entries'"
    using assms by (cases "node_at (w\<lparr>fs := f\<rparr>) p") simp_all
  have "same_view w p (Dir entries) (Dir entries')"
    using es by simp
  then have "walk w regex sr p (Dir entries) st = walk w regex sr p (Dir entries') st"
    using walk_same(1) by blast
  moreover have "scan_listdir w regex sr p entries st' = scan_listdir w regex sr p entries' st'" for st'
    using es by (rule scan_listdir_same)
  ultimately show ?thesis
    using Dir Dir' by (simp add: search_def walk_fs_update scan_listdir_fs_update del: walk.simps)
next
  case (Unreadable e)
  then have "node_at (w\<lparr>fs := f\<rparr>) p = Unreadable e"
    using assms by (cases "node_at (w\<lparr>fs := f\<rparr>) p") simp_all
  then show ?thesis
    using Unreadable by (simp add: search_def)
qed

lemma grep_search_same:
  assumes "\<And>p. same_view w p (node_at w p) (node_at (w\<lparr>fs := f\<rparr>) p)"
  shows "grep_search w path pattern workspace_id agent_id session_id recursive
    = grep_search (w\<lparr>fs := f\<rparr>) path pattern workspace_id agent_id session_id recursive"
proof -
  have "search w regex (session_root_of w workspace_id agent_id session_id) p recursive st
      = search (w\<lparr>fs := f\<rparr>) regex (session_root_of w workspace_id agent_id session_id) p recursive st"
    for regex p st
    using assms by (rule search_same)
  moreover have "session_root_of (w\<lparr>fs := f\<rparr>) workspace_id agent_id session_id
      = session_root_of w workspace_id agent_id session_id"
    by (simp add: session_root_of_def)
  ultimately show ?thesis
    by (simp add: grep_search_def Let_def split: compile_result.splits sum.splits)
qed

section \<open>Pruned directories\<close>

lemma same_view_erase_ignored: "same_view w p nd (erase_ignored nd)"
proof (induction p nd rule: node_path_induct [where join = "path_join w"])
  case (Dir p entries)
  have "same_entries w p entries
      (map (\<lambda>(name, nd). (name, if is_dir nd \<and> name \<in> IGNORED_DIRS then Dir [] else erase_ignored nd))
         entries)"
  proof (rule same_entries_map)
    fix name nd assume "(name, nd) \<in> set entries"
    then have "same_view w (path_join w p name) nd (erase_ignored nd)" by (rule Dir)
    moreover have "is_dir (erase_ignored nd) = is_dir nd" by (cases nd) simp_all
    ultimately show "is_dir (if is_dir nd \<and> name \<in> IGNORED_DIRS then Dir [] else erase_ignored nd) = is_dir nd
      \<and> ((is_dir nd \<and> name \<in> IGNORED_DIRS)
          \<or> same_view w (path_join w p name) nd
               (if is_dir nd \<and> name \<in> IGNORED_DIRS then Dir [] else erase_ignored nd))"
      by simp
  qed
  then show ?case by simp
qed simp_all

lemma node_at_without_ignored: "node_at (without_ignored w) p = erase_ignored (node_at w p)"
  by (simp add: without_ignored_def node_at_def split: option.splits)

lemma grep_search_without_ignored:
  "grep_search w path pattern workspace_id agent_id session_id recursive
     = grep_search (without_ignored w) path pattern workspace_id agent_id session_id recursive"
  unfolding without_ignored_def
proof (rule grep_search_same)
  fix p
  have "node_at (w\<lparr>fs := \<lambda>p. map_option erase_ignored (fs w p)\<rparr>) p = erase_ignored (node_at w p)"
    by (simp add: node_at_def split: option.splits)
  then show "same_view w p (node_at w p) (node_at (w\<lparr>fs := \<lambda>p. map_option erase_ignored (fs w p)\<rparr>) p)"
    by (simp add: same_view_erase_ignored)
qed

text \<open>
  Claim C4, as amended. In recursive mode the result and the calls are those of the same
  request on the tree in which every directory with an ignored name below the search
  target is empty, and every match record is a line of a file of that tree: a file
  reached from the search target through directories without an ignored name. The search
  target itself is walked whatever its name is.
\<close>

theorem ignored_dirs_contribute_nothing:
  "grep_search w path pattern workspace_id agent_id session_id True
     = grep_search (without_ignored w) path pattern workspace_id agent_id session_id True
   \<and> (\<forall>ms m. lookup_key (fst (grep_search w path pattern workspace_id agent_id session_id True))
                ''matches'' = Some (PyList ms) \<longrightarrow> m \<in> set ms \<longrightarrow>
         (\<exists>regex secure_path q ls k.
            re_compile w pattern = Compiled regex
            \<and> get_secure_path w path workspace_id agent_id session_id = Inr secure_path
            \<and> file_below w secure_path (erase_ignored (node_at w secure_path)) q ls
            \<and> k < length ls \<and> regex (ls ! k)
            \<and> m = record_of w (session_root_of w workspace_id agent_id session_id) q ls k))"
proof (intro conjI allI impI)
  show same: "grep_search w path pattern workspace_id agent_id session_id True
     = grep_search (without_ignored w) path pattern workspace_id agent_id session_id True"
    by (rule grep_search_without_ignored)
  fix ms m
  assume "lookup_key (fst (grep_search w path pattern workspace_id agent_id session_id True))
      ''matches'' = Some (PyList ms)" and "m \<in> set ms"
  with same show "\<exists>regex secure_path q ls k.
            re_compile w pattern = Compiled regex
            \<and> get_secure_path w path workspace_id agent_id session_id = Inr secure_path
            \<and> file_below w secure_path (erase_ignored (node_at w secure_path)) q ls
            \<and> k < length ls \<and> regex (ls ! k)
            \<and> m = record_of w (session_root_of w workspace_id agent_id session_id) q ls k"
    using grep_search_records_of_view [of w path pattern workspace_id agent_id session_id True
        "\<lambda>p. map_option erase_ignored (fs w p)" ms m]
      node_at_without_ignored [of w]
    by (simp add: without_ignored_def)
qed

theorem ignored_dirs_contribute_nothing_witness:
  "fs example_world ''/workspaces/ws/ag/sess/proj'' = Some proj_dir
   \<and> grep_search (without_ignored example_world) ''proj'' ''hello'' ''ws'' ''ag'' ''sess'' True =
    (Returns [(''success'', PyBool True), (''pattern'', PyStr ''hello''), (''path'', PyStr ''proj''),
      (''recursive'', PyBool True),
      (''matches'', PyList [\<lparr>file' = ''proj/src/foo.txt'', line_number = 1,
                              line_content = ''hello world''\<rparr>]),
      (''total_matches'', PyInt 1)],
     [Resolve, IsFile ''/workspaces/ws/ag/sess/proj'', Scandir ''/workspaces/ws/ag/sess/proj'',
      Open ''/workspaces/ws/ag/sess/proj/notes.txt'', Open ''/workspaces/ws/ag/sess/proj/locked.txt'',
      Scandir ''/workspaces/ws/ag/sess/proj/src'', Open ''/workspaces/ws/ag/sess/proj/src/foo.txt''])
   \<and> lookup_key (fst (grep_search example_world ''proj'' ''hello'' ''ws'' ''ag'' ''sess'' True)) ''matches''
       = Some (PyList [\<lparr>file' = ''proj/src/foo.txt'', line_number = 1, line_content = ''hello world''\<rparr>])
   \<and> (\<exists>regex secure_path q ls k.
        re_compile example_world ''hello'' = Compiled regex
        \<and> get_secure_path example_world ''proj'' ''ws'' ''ag'' ''sess'' = Inr secure_path
        \<and> file_below example_world secure_path (erase_ignored (node_at example_world secure_path)) q ls
        \<and> k < length ls \<and> regex (ls ! k)
        \<and> \<lparr>file' = ''proj/src/foo.txt'', line_number = 1, line_content = ''hello world''\<rparr>
            = record_of example_world (session_root_of example_world ''ws'' ''ag'' ''sess'') q ls k)"
proof -
  note inst = ignored_dirs_contribute_nothing
    [of example_world "''proj''" "''hello''" "''ws''" "''ag''" "''sess''"]
  have found: "lookup_key (fst (grep_search example_world ''proj'' ''hello'' ''ws'' ''ag'' ''sess'' True))
      ''matches''
       = Some (PyList [\<lparr>file' = ''proj/src/foo.txt'', line_number = 1, line_content = ''hello world''\<rparr>])"
    by (simp add: example_recursive_hello lookup_key_def)
  from inst found have "\<exists>regex secure_path q ls k.
        re_compile example_world ''hello'' = Compiled regex
        \<and> get_secure_path example_world ''proj'' ''ws'' ''ag'' ''sess'' = Inr secure_path
        \<and> file_below example_world secure_path (erase_ignored (node_at example_world secure_path)) q ls
        \<and> k < length ls \<and> regex (ls ! k)
        \<and> \<lparr>file' = ''proj/src/foo.txt'', line_number = 1, line_content = ''hello world''\<rparr>
            = record_of example_world (session_root_of example_world ''ws'' ''ag'' ''sess'') q ls k"
    by simp
  moreover from inst have "grep_search (without_ignored example_world) ''proj'' ''hello'' ''ws'' ''ag'' ''sess'' True
      = grep_search example_world ''proj'' ''hello'' ''ws'' ''ag'' ''sess'' True"
    by simp
  ultimately show ?thesis
    using found example_proj(4) example_recursive_hello by simp
qed

text \<open>
  The claim as stated fails where the search target itself is a directory with an ignored
  name: its files are searched and reported.
\<close>

theorem search_root_in_ignored_dir:
  "''build'' \<in> IGNORED_DIRS
   \<and> get_secure_path example_world ''proj/build'' ''ws'' ''ag'' ''sess''
       = Inr ''/workspaces/ws/ag/sess/proj/build''
   \<and> fst (grep_search example_world ''proj/build'' ''hello'' ''ws'' ''ag'' ''sess'' True)
       = Returns [(''success'', PyBool True), (''pattern'', PyStr ''hello''), (''path'', PyStr ''proj/build''),
          (''recursive'', PyBool True),
          (''matches'', PyList [\<lparr>file' = ''proj/build/out.txt'', line_number = 1,
                                  line_content = ''hello from the build''\<rparr>]),
          (''total_matches'', PyInt 1)]"
  by code_simp

section \<open>Files that fail while they are read\<close>


























section \<open>Files with a binary extension\<close>

lemma same_view_blank_binary: "same_view w p nd (blank_binary w p nd)"
proof (induction p nd rule: node_path_induct [where join = "path_join w"])
  case (Dir p entries)
  have "same_entries w p entries
      (map (\<lambda>(name, nd). (name, blank_binary w (path_join w p name) nd)) entries)"
  proof (rule same_entries_map)
    fix name nd assume "(name, nd) \<in> set entries"
    then have "same_view w (path_join w p name) nd (blank_binary w (path_join w p name) nd)"
      by (rule Dir)
    moreover have "is_dir (blank_binary w (path_join w p name) nd) = is_dir nd"
      by (cases nd) simp_all
    ultimately show "is_dir (blank_binary w (path_join w p name) nd) = is_dir nd
      \<and> ((is_dir nd \<and> name \<in> IGNORED_DIRS)
          \<or> same_view w (path_join w p name) nd (blank_binary w (path_join w p name) nd))"
      by simp
  qed
  then show ?case by simp
qed simp_all

lemma grep_search_binaries_blanked:
  "grep_search w path pattern workspace_id agent_id session_id recursive
     = grep_search (binaries_blanked w) path pattern workspace_id agent_id session_id recursive"
  unfolding binaries_blanked_def
proof (rule grep_search_same)
  fix p
  have "node_at (w\<lparr>fs := \<lambda>p. map_option (blank_binary w p) (fs w p)\<rparr>) p = blank_binary w p (node_at w p)"
    by (simp add: node_at_def split: option.splits)
  then show "same_view w p (node_at w p)
      (node_at (w\<lparr>fs := \<lambda>p. map_option (blank_binary w p) (fs w p)\<rparr>) p)"
    by (simp add: same_view_blank_binary)
qed

lemma process_file_opens:
  assumes "Open p \<in> set (trace (fst (process_file w regex sr q ls failure st)))"
  shows "Open p \<in> set (trace st) \<or> (p = q \<and> \<not> is_binary w q)"
  using assms
  by (auto simp: process_file_def log_event_def Let_def split: prod.splits bool.splits option.splits if_splits)

lemma search_opens:
  assumes "\<forall>q. Open q \<in> set (trace st) \<longrightarrow> \<not> is_binary w q"
  shows "\<forall>q. Open q \<in> set (trace (fst (search w regex sr p recursive st))) \<longrightarrow> \<not> is_binary w q"
proof (rule search_invariant [where I = "\<lambda>st. \<forall>q. Open q \<in> set (trace st) \<longrightarrow> \<not> is_binary w q"
      and V = "\<lambda>q ls. True"])
  fix q ls failure and st' :: state
  assume "\<forall>q. Open q \<in> set (trace st') \<longrightarrow> \<not> is_binary w q"
  then show "\<forall>q'. Open q' \<in> set (trace (fst (process_file w regex sr q ls failure st')))
      \<longrightarrow> \<not> is_binary w q'"
    using process_file_opens by blast
qed (use assms in \<open>auto simp: log_event_def\<close>)

lemma grep_search_opens:
  assumes "Open p \<in> set (snd (grep_search w path pattern workspace_id agent_id session_id recursive))"
  shows "\<not> is_binary w p"
proof -
  have "\<forall>q. Open q \<in> set (trace (fst (search w regex sr secure_path recursive (initial_state secure_path))))
      \<longrightarrow> \<not> is_binary w q" for regex sr secure_path
    by (rule search_opens) (simp add: initial_state_def)
  then show ?thesis
    using assms grep_search_trace_cases [of w path pattern workspace_id agent_id session_id recursive]
    by auto
qed

text \<open>
  Claim C5. In every mode: the result and the calls do not depend on what the files with
  a binary extension hold (they are those of the same request where all these files are
  empty); no file with a binary extension is ever opened; and every match record is a
  line of a file whose extension is not binary.
\<close>

theorem binary_files_are_skipped:
  "grep_search w path pattern workspace_id agent_id session_id recursive
     = grep_search (binaries_blanked w) path pattern workspace_id agent_id session_id recursive
   \<and> (\<forall>p. Open p \<in> set (snd (grep_search w path pattern workspace_id agent_id session_id recursive))
         \<longrightarrow> \<not> is_binary w p)
   \<and> (\<forall>ms m. lookup_key (fst (grep_search w path pattern workspace_id agent_id session_id recursive))
                ''matches'' = Some (PyList ms) \<longrightarrow> m \<in> set ms \<longrightarrow>
         (\<exists>regex secure_path q ls k.
            re_compile w pattern = Compiled regex
            \<and> get_secure_path w path workspace_id agent_id session_id = Inr secure_path
            \<and> file_below w secure_path (node_at w secure_path) q ls
            \<and> \<not> is_binary w q \<and> k < length ls
            \<and> m = record_of w (session_root_of w workspace_id agent_id session_id) q ls k))"
proof (intro conjI allI impI)
  show "grep_search w path pattern workspace_id agent_id session_id recursive
     = grep_search (binaries_blanked w) path pattern workspace_id agent_id session_id recursive"
    by (rule grep_search_binaries_blanked)
next
  fix p
  assume "Open p \<in> set (snd (grep_search w path pattern workspace_id agent_id session_id recursive))"
  then show "\<not> is_binary w p" by (rule grep_search_opens)
next
  fix ms m
  assume "lookup_key (fst (grep_search w path pattern workspace_id agent_id session_id recursive))
      ''matches'' = Some (PyList ms)" and "m \<in> set ms"
  then obtain regex secure_path where
    "re_compile w pattern = Compiled regex"
    "get_secure_path w path workspace_id agent_id session_id = Inr secure_path"
    "from_tree w regex (session_root_of w workspace_id agent_id session_id) secure_path m"
    using grep_search_records by blast
  then show "\<exists>regex secure_path q ls k.
            re_compile w pattern = Compiled regex
            \<and> get_secure_path w path workspace_id agent_id session_id = Inr secure_path
            \<and> file_below w secure_path (node_at w secure_path) q ls
            \<and> \<not> is_binary w q \<and> k < length ls
            \<and> m = record_of w (session_root_of w workspace_id agent_id session_id) q ls k"
    unfolding from_tree_def by blast
qed

theorem binary_files_are_skipped_witness:
  "Open ''/workspaces/ws/ag/sess/proj/notes.txt''
     \<in> set (snd (grep_search example_world ''proj'' ''TODO'' ''ws'' ''ag'' ''sess'' False))
   \<and> \<not> is_binary example_world ''/workspaces/ws/ag/sess/proj/notes.txt''
   \<and> is_binary example_world ''/workspaces/ws/ag/sess/proj/icon.PNG''
   \<and> lookup_key (fst (grep_search example_world ''proj'' ''TODO'' ''ws'' ''ag'' ''sess'' False)) ''matches''
       = Some (PyList [\<lparr>file' = ''proj/notes.txt'', line_number = 2, line_content = ''TODO: fix''\<rparr>])
   \<and> (\<exists>regex secure_path q ls k.
        re_compile example_world ''TODO'' = Compiled regex
        \<and> get_secure_path example_world ''proj'' ''ws'' ''ag'' ''sess'' = Inr secure_path
        \<and> file_below example_world secure_path (node_at example_world secure_path) q ls
        \<and> \<not> is_binary example_world q \<and> k < length ls
        \<and> \<lparr>file' = ''proj/notes.txt'', line_number = 2, line_content = ''TODO: fix''\<rparr>
            = record_of example_world (session_root_of example_world ''ws'' ''ag'' ''sess'') q ls k)
   \<and> grep_search example_world ''proj'' ''TODO'' ''ws'' ''ag'' ''sess'' False
       = grep_search (binaries_blanked example_world) ''proj'' ''TODO'' ''ws'' ''ag'' ''sess'' False"
proof -
  note inst = binary_files_are_skipped [of example_world "''proj''" "''TODO''" "''ws''" "''ag''" "''sess''" False]
  have opened: "Open ''/workspaces/ws/ag/sess/proj/notes.txt''
     \<in> set (snd (grep_search example_world ''proj'' ''TODO'' ''ws'' ''ag'' ''sess'' False))"
    by (simp add: example_flat_todo lookup_key_def)
  have found: "lookup_key (fst (grep_search example_world ''proj'' ''TODO'' ''ws'' ''ag'' ''sess'' False))
      ''matches''
       = Some (PyList [\<lparr>file' = ''proj/notes.txt'', line_number = 2, line_content = ''TODO: fix''\<rparr>])"
    by (simp add: example_flat_todo lookup_key_def)
  have icon: "is_binary example_world ''/workspaces/ws/ag/sess/proj/icon.PNG''"
    by code_simp
  from inst opened have "\<not> is_binary example_world ''/workspaces/ws/ag/sess/proj/notes.txt''"
    by blast
  moreover from inst found have "\<exists>regex secure_path q ls k.
        re_compile example_world ''TODO'' = Compiled regex
        \<and> get_secure_path example_world ''proj'' ''ws'' ''ag'' ''sess'' = Inr secure_path
        \<and> file_below example_world secure_path (node_at example_world secure_path) q ls
        \<and> \<not> is_binary example_world q \<and> k < length ls
        \<and> \<lparr>file' = ''proj/notes.txt'', line_number = 2, line_content = ''TODO: fix''\<rparr>
            = record_of example_world (session_root_of example_world ''ws'' ''ag'' ''sess'') q ls k"
    by simp
  moreover from inst have "grep_search example_world ''proj'' ''TODO'' ''ws'' ''ag'' ''sess'' False
       = grep_search (binaries_blanked example_world) ''proj'' ''TODO'' ''ws'' ''ag'' ''sess'' False"
    by blast
  ultimately show ?thesis
    using opened found icon by blast
qed

section \<open>The non-recursive mode\<close>

lemma scan_listdir_empty_subdirs:
  "scan_listdir w regex sr root (map (\<lambda>(name, nd). (name, if is_dir nd then Dir [] else nd)) entries) st
     = scan_listdir w regex sr root entries st"
proof (induction entries arbitrary: st)
  case Nil
  show ?case by simp
next
  case (Cons entry rest)
  obtain item nd where entry: "entry = (item, nd)" by (cases entry)
  show ?case
    using Cons entry by (cases nd) (auto simp: Let_def split: prod.splits signal.splits)
qed

lemma search_subdirs_emptied:
  "search (subdirs_emptied w) regex sr p False st = search w regex sr p False st"
proof -
  have "node_at (subdirs_emptied w) p = empty_subdirs (node_at w p)"
    by (simp add: subdirs_emptied_def node_at_def split: option.splits)
  then show ?thesis
    by (cases "node_at w p")
      (simp_all add: search_def subdirs_emptied_def process_file_fs_update scan_listdir_fs_update
        scan_listdir_empty_subdirs)
qed

lemma grep_search_subdirs_emptied:
  "grep_search (subdirs_emptied w) path pattern workspace_id agent_id session_id False
     = grep_search w path pattern workspace_id agent_id session_id False"
proof -
  have "session_root_of (subdirs_emptied w) workspace_id agent_id session_id
      = session_root_of w workspace_id agent_id session_id"
    by (simp add: session_root_of_def subdirs_emptied_def)
  moreover have "re_compile (subdirs_emptied w) = re_compile w"
    "get_secure_path (subdirs_emptied w) = get_secure_path w"
    by (simp_all add: subdirs_emptied_def)
  ultimately show ?thesis
    by (simp add: grep_search_def search_subdirs_emptied Let_def split: compile_result.splits sum.splits)
qed

lemma scan_listdir_opens:
  assumes "Open p \<in> set (trace (fst (scan_listdir w regex sr root entries st)))"
  shows "Open p \<in> set (trace st)
    \<or> (\<exists>item ls failure. (item, File ls failure) \<in> set entries \<and> p = path_join w root item)"
proof -
  let ?I = "\<lambda>st'. Open p \<in> set (trace st') \<longrightarrow> Open p \<in> set (trace st)
    \<or> (\<exists>item ls failure. (item, File ls failure) \<in> set entries \<and> p = path_join w root item)"
  have "?I (fst (scan_listdir w regex sr root entries st))"
  proof (rule scan_listdir_invariant [where I = ?I])
    fix name ls failure and st' :: state
    assume "(name, File ls failure) \<in> set entries" and "?I st'"
    then show "?I (fst (process_file w regex sr (path_join w root name) ls failure st'))"
      using process_file_opens [of p w regex sr "path_join w root name" ls failure st'] by blast
  qed (simp_all add: log_event_def)
  then show ?thesis using assms by simp
qed

text \<open>
  Claim C6. Without \<open>recursive\<close>, on a directory: the result and the calls are those of
  the same request on the tree whose subdirectories are all empty; the only files opened
  are regular files listed in the directory itself; and every match record is a line of
  such a file. (In the example after the theorem, the recursive search reports a match in
  \<open>proj/src\<close> that the non-recursive one does not.)
\<close>

theorem non_recursive_stays_in_directory:
  assumes "re_compile w pattern = Compiled regex"
    and "get_secure_path w path workspace_id agent_id session_id = Inr secure_path"
    and "fs w secure_path = Some (Dir entries)"
  shows "grep_search w path pattern workspace_id agent_id session_id False
           = grep_search (subdirs_emptied w) path pattern workspace_id agent_id session_id False
       \<and> (\<forall>p. Open p \<in> set (snd (grep_search w path pattern workspace_id agent_id session_id False))
            \<longrightarrow> (\<exists>item ls failure. (item, File ls failure) \<in> set entries
                   \<and> p = path_join w secure_path item))
       \<and> (\<forall>ms m. lookup_key (fst (grep_search w path pattern workspace_id agent_id session_id False))
                ''matches'' = Some (PyList ms) \<longrightarrow> m \<in> set ms \<longrightarrow>
            (\<exists>item ls failure k. (item, File ls failure) \<in> set entries
               \<and> k < length ls \<and> regex (ls ! k)
               \<and> m = record_of w (session_root_of w workspace_id agent_id session_id)
                       (path_join w secure_path item) ls k))"
proof (intro conjI allI impI)
  let ?sr = "session_root_of w workspace_id agent_id session_id"
  let ?st0 = "log_event (Listdir secure_path) (initial_state secure_path)"
  show same: "grep_search w path pattern workspace_id agent_id session_id False
           = grep_search (subdirs_emptied w) path pattern workspace_id agent_id session_id False"
    using grep_search_subdirs_emptied by simp
  have run: "search w regex ?sr secure_path False (initial_state secure_path)
      = scan_listdir w regex ?sr secure_path entries ?st0"
    using assms(3) by (simp add: search_def node_at_def)
  have tr: "snd (grep_search w path pattern workspace_id agent_id session_id False)
      = trace (fst (scan_listdir w regex ?sr secure_path entries ?st0))"
    using assms(1,2) run by (auto simp: grep_search_def split: prod.splits signal.splits)
  {
    fix p
    assume "Open p \<in> set (snd (grep_search w path pattern workspace_id agent_id session_id False))"
    then have "Open p \<in> set (trace (fst (scan_listdir w regex ?sr secure_path entries ?st0)))"
      using tr by simp
    then have "Open p \<in> set (trace ?st0)
      \<or> (\<exists>item ls failure. (item, File ls failure) \<in> set entries \<and> p = path_join w secure_path item)"
      by (rule scan_listdir_opens)
    then show "\<exists>item ls failure. (item, File ls failure) \<in> set entries \<and> p = path_join w secure_path item"
      by (simp add: log_event_def initial_state_def)
  }
  {
    fix ms m
    assume found: "lookup_key (fst (grep_search w path pattern workspace_id agent_id session_id False))
        ''matches'' = Some (PyList ms)" and m: "m \<in> set ms"
    have "grep_search w path pattern workspace_id agent_id session_id False
        = grep_search (w\<lparr>fs := \<lambda>p. map_option empty_subdirs (fs w p)\<rparr>) path pattern workspace_id
            agent_id session_id False"
      using same by (simp add: subdirs_emptied_def)
    from grep_search_records_of_view [OF this found m]
    obtain regex' secure_path' q ls k where
      comp: "re_compile w pattern = Compiled regex'"
      and res: "get_secure_path w path workspace_id agent_id session_id = Inr secure_path'"
      and below: "file_below w secure_path'
          (node_at (w\<lparr>fs := \<lambda>p. map_option empty_subdirs (fs w p)\<rparr>) secure_path') q ls"
      and k: "k < length ls" "regex' (ls ! k)"
      and rec: "m = record_of w ?sr q ls k"
      by blast
    have eq: "regex' = regex" "secure_path' = secure_path"
      using comp res assms(1,2) by simp_all
    have "node_at (w\<lparr>fs := \<lambda>p. map_option empty_subdirs (fs w p)\<rparr>) secure_path
        = Dir (map (\<lambda>(name, nd). (name, if is_dir nd then Dir [] else nd)) entries)"
      using assms(3) by (simp add: node_at_def)
    then have "file_below w secure_path
        (Dir (map (\<lambda>(name, nd). (name, if is_dir nd then Dir [] else nd)) entries)) q ls"
      using below eq by simp
    then obtain name nd where
      entry: "(name, nd) \<in> set (map (\<lambda>(name, nd). (name, if is_dir nd then Dir [] else nd)) entries)"
      and sub: "file_below w (path_join w secure_path name) nd q ls"
      by (auto elim: file_below.cases)
    from entry obtain nd0 where nd0: "(name, nd0) \<in> set entries"
      and nd: "nd = (if is_dir nd0 then Dir [] else nd0)"
      by auto
    have "\<exists>failure. nd0 = File ls failure \<and> q = path_join w secure_path name"
    proof (cases "is_dir nd0")
      case True
      then have "file_below w (path_join w secure_path name) (Dir []) q ls"
        using sub nd by simp
      then show ?thesis by (auto elim: file_below.cases)
    next
      case False
      then obtain ls0 failure where "nd0 = File ls0 failure" by (cases nd0) simp_all
      then show ?thesis using sub nd False by (auto elim: file_below.cases)
    qed
    then show "\<exists>item ls failure k. (item, File ls failure) \<in> set entries
               \<and> k < length ls \<and> regex (ls ! k)
               \<and> m = record_of w ?sr (path_join w secure_path item) ls k"
      using nd0 k rec eq by blast
  }
qed

theorem non_recursive_stays_in_directory_witness:
  "re_compile example_world ''TODO'' = Compiled (contains ''TODO'')
   \<and> get_secure_path example_world ''proj'' ''ws'' ''ag'' ''sess'' = Inr ''/workspaces/ws/ag/sess/proj''
   \<and> fs example_world ''/workspaces/ws/ag/sess/proj'' = Some proj_dir
   \<and> lookup_key (fst (grep_search example_world ''proj'' ''hello'' ''ws'' ''ag'' ''sess'' True)) ''matches''
       = Some (PyList [\<lparr>file' = ''proj/src/foo.txt'', line_number = 1, line_content = ''hello world''\<rparr>])
   \<and> lookup_key (fst (grep_search example_world ''proj'' ''hello'' ''ws'' ''ag'' ''sess'' False)) ''matches''
       = Some (PyList [])
   \<and> grep_search example_world ''proj'' ''TODO'' ''ws'' ''ag'' ''sess'' False
       = grep_search (subdirs_emptied example_world) ''proj'' ''TODO'' ''ws'' ''ag'' ''sess'' False
   \<and> Open ''/workspaces/ws/ag/sess/proj/notes.txt''
       \<in> set (snd (grep_search example_world ''proj'' ''TODO'' ''ws'' ''ag'' ''sess'' False))
   \<and> (\<exists>item ls failure. (item, File ls failure) \<in> set (case proj_dir of Dir entries \<Rightarrow> entries | _ \<Rightarrow> [])
        \<and> ''/workspaces/ws/ag/sess/proj/notes.txt''
            = path_join example_world ''/workspaces/ws/ag/sess/proj'' item)
   \<and> lookup_key (fst (grep_search example_world ''proj'' ''TODO'' ''ws'' ''ag'' ''sess'' False)) ''matches''
       = Some (PyList [\<lparr>file' = ''proj/notes.txt'', line_number = 2, line_content = ''TODO: fix''\<rparr>])
   \<and> (\<exists>item ls failure k. (item, File ls failure) \<in> set (case proj_dir of Dir entries \<Rightarrow> entries | _ \<Rightarrow> [])
        \<and> k < length ls \<and> contains ''TODO'' (ls ! k)
        \<and> \<lparr>file' = ''proj/notes.txt'', line_number = 2, line_content = ''TODO: fix''\<rparr>
            = record_of example_world (session_root_of example_world ''ws'' ''ag'' ''sess'')
                (path_join example_world ''/workspaces/ws/ag/sess/proj'' item) ls k)"
proof -
  obtain entries where entries: "proj_dir = Dir entries"
    by (simp add: proj_dir_def)
  then have dir: "fs example_world ''/workspaces/ws/ag/sess/proj'' = Some (Dir entries)"
    using example_proj(4) by simp
  note inst = non_recursive_stays_in_directory [OF example_proj(2) example_proj(3) dir]
  have opened: "Open ''/workspaces/ws/ag/sess/proj/notes.txt''
       \<in> set (snd (grep_search example_world ''proj'' ''TODO'' ''ws'' ''ag'' ''sess'' False))"
    by (simp add: example_flat_todo lookup_key_def)
  have found: "lookup_key (fst (grep_search example_world ''proj'' ''TODO'' ''ws'' ''ag'' ''sess'' False))
      ''matches''
       = Some (PyList [\<lparr>file' = ''proj/notes.txt'', line_number = 2, line_content = ''TODO: fix''\<rparr>])"
    by (simp add: example_flat_todo lookup_key_def)
  from inst opened have "\<exists>item ls failure. (item, File ls failure) \<in> set entries
        \<and> ''/workspaces/ws/ag/sess/proj/notes.txt''
            = path_join example_world ''/workspaces/ws/ag/sess/proj'' item"
    by blast
  moreover from inst found have "\<exists>item ls failure k. (item, File ls failure) \<in> set entries
        \<and> k < length ls \<and> contains ''TODO'' (ls ! k)
        \<and> \<lparr>file' = ''proj/notes.txt'', line_number = 2, line_content = ''TODO: fix''\<rparr>
            = record_of example_world (session_root_of example_world ''ws'' ''ag'' ''sess'')
                (path_join example_world ''/workspaces/ws/ag/sess/proj'' item) ls k"
    by simp
  moreover from inst have "grep_search example_world ''proj'' ''TODO'' ''ws'' ''ag'' ''sess'' False
       = grep_search (subdirs_emptied example_world) ''proj'' ''TODO'' ''ws'' ''ag'' ''sess'' False"
    by blast
  moreover have "lookup_key (fst (grep_search example_world ''proj'' ''hello'' ''ws'' ''ag'' ''sess'' True))
      ''matches''
       = Some (PyList [\<lparr>file' = ''proj/src/foo.txt'', line_number = 1, line_content = ''hello world''\<rparr>])"
    by (simp add: example_recursive_hello lookup_key_def)
  moreover have "lookup_key (fst (grep_search example_world ''proj'' ''hello'' ''ws'' ''ag'' ''sess'' False))
      ''matches'' = Some (PyList [])"
    by (simp add: example_flat_hello lookup_key_def)
  ultimately show ?thesis
    using opened found example_proj(2,3,4) unfolding entries by simp
qed

end
